theory Spec2Isabelle
  imports Main "HOL-Library.Word" "HOL-Library.Char_ord" "HOL-Library.List_Lexorder"
    "HOL-Library.Option_ord" "HOL-Library.Multiset"
begin

unbundle bit_operations_syntax

section \<open>Time: aware UTC datetimes, timedeltas and their ISO rendering\<close>

text \<open>
  Every datetime of \<^verbatim>\<open>newsletter_service.py\<close> is timezone-aware and in UTC
  (\<^verbatim>\<open>datetime.now(timezone.utc)\<close>, \<^verbatim>\<open>datetime.fromisoformat("...+00:00")\<close>).
  Such a datetime is modelled by the number of microseconds since
  \<^verbatim>\<open>0001-01-01T00:00:00+00:00\<close>, the instant Python's proleptic Gregorian
  ordinal 1 starts at. Python's datetimes cover the years 1 to 9999.
  A \<^verbatim>\<open>timedelta\<close> is a whole number of microseconds; Python keeps it
  normalised as \<^verbatim>\<open>days\<close> (any sign), \<^verbatim>\<open>seconds\<close> in 0..86399 and
  \<^verbatim>\<open>microseconds\<close> in 0..999999, which is what floor division gives.
\<close>

type_synonym datetime = int
type_synonym timedelta = int

definition us_per_second :: int where
  "us_per_second = 1000000"

definition us_per_day :: int where
  "us_per_day = 86400 * 1000000"

definition td_days :: "timedelta \<Rightarrow> int" where
  "td_days td = td div us_per_day"

definition td_seconds :: "timedelta \<Rightarrow> int" where
  "td_seconds td = (td div us_per_second) mod 86400"

definition td_microseconds :: "timedelta \<Rightarrow> int" where
  "td_microseconds td = td mod us_per_second"

text \<open>
  \<^verbatim>\<open>int(td.total_seconds())\<close>: the quotient by \<open>10^6\<close>, truncated towards zero
  by \<^verbatim>\<open>int\<close>. Python takes the quotient as a float: it is the exact quotient, as
  here, for a whole number of seconds and for every difference shorter than some 270 years,
  and beyond that the float can round a fraction up to the next second.
\<close>

definition int_total_seconds :: "timedelta \<Rightarrow> int" where
  "int_total_seconds td =
     (if 0 \<le> td then td div us_per_second else - ((- td) div us_per_second))"

definition timedelta_days :: "int \<Rightarrow> timedelta" where
  "timedelta_days n = n * us_per_day"

subsection \<open>The proleptic Gregorian calendar of Python's datetime\<close>

definition is_leap :: "nat \<Rightarrow> bool" where
  "is_leap y = (y mod 4 = 0 \<and> (y mod 100 \<noteq> 0 \<or> y mod 400 = 0))"

definition days_before_year :: "nat \<Rightarrow> nat" where
  "days_before_year year =
     (let y = year - 1 in y * 365 + y div 4 - y div 100 + y div 400)"

definition DAYS_IN_MONTH :: "nat list" where
  "DAYS_IN_MONTH = [0, 31, 28, 31, 30, 31, 30, 31, 31, 30, 31, 30, 31]"

definition DAYS_BEFORE_MONTH :: "nat list" where
  "DAYS_BEFORE_MONTH = [0, 0, 31, 59, 90, 120, 151, 181, 212, 243, 273, 304, 334]"

definition days_in_month :: "nat \<Rightarrow> nat \<Rightarrow> nat" where
  "days_in_month year month =
     (if month = 2 \<and> is_leap year then 29 else DAYS_IN_MONTH ! month)"

definition days_before_month :: "nat \<Rightarrow> nat \<Rightarrow> nat" where
  "days_before_month year month =
     DAYS_BEFORE_MONTH ! month + (if 2 < month \<and> is_leap year then 1 else 0)"

definition ymd2ord :: "nat \<Rightarrow> nat \<Rightarrow> nat \<Rightarrow> nat" where
  "ymd2ord year month day = days_before_year year + days_before_month year month + day"

text \<open>
  \<^verbatim>\<open>_ord2ymd\<close>: the date of an ordinal, by the 400, 100, 4 and 1 year cycles.
  The months are indexed 1..12, as in the tables above (index 0 is a placeholder).
\<close>

definition ord2ymd :: "nat \<Rightarrow> nat \<times> nat \<times> nat" where
  "ord2ymd ordinal =
     (let n0 = ordinal - 1;
          n400 = n0 div 146097; n1 = n0 mod 146097;
          n100 = n1 div 36524; n2 = n1 mod 36524;
          n4 = n2 div 1461; n3 = n2 mod 1461;
          n1y = n3 div 365; n = n3 mod 365;
          year = n400 * 400 + 1 + n100 * 100 + n4 * 4 + n1y
      in if n1y = 4 \<or> n100 = 4 then (year - 1, 12, 31)
         else
           let leapyear = (n1y = 3 \<and> (n4 \<noteq> 24 \<or> n100 = 3));
               month = (n + 50) div 32;
               preceding = DAYS_BEFORE_MONTH ! month + (if 2 < month \<and> leapyear then 1 else 0)
           in if n < preceding
              then let month' = month - 1;
                       preceding' = preceding
                         - (DAYS_IN_MONTH ! month' + (if month' = 2 \<and> leapyear then 1 else 0))
                   in (year, month', n - preceding' + 1)
              else (year, month, n - preceding + 1))"

text \<open>
  The datetime with the given fields, and the launch instant
  \<^verbatim>\<open>datetime.fromisoformat("2025-09-01T00:00:00+00:00")\<close>.
\<close>

definition mk_datetime :: "nat \<Rightarrow> nat \<Rightarrow> nat \<Rightarrow> nat \<Rightarrow> nat \<Rightarrow> nat \<Rightarrow> nat \<Rightarrow> datetime" where
  "mk_datetime y m d hh mm ss us =
     ((int (ymd2ord y m d) - 1) * 86400 + int hh * 3600 + int mm * 60 + int ss) * us_per_second
       + int us"

definition launch_date :: datetime where
  "launch_date = mk_datetime 2025 9 1 0 0 0 0"

subsection \<open>isoformat\<close>

definition digit_char :: "nat \<Rightarrow> char" where
  "digit_char d = char_of (48 + d mod 10)"

text \<open>\<^verbatim>\<open>"%0wd" % n\<close>: the decimal digits of \<open>n\<close>, zero-padded to at least \<open>w\<close> characters.\<close>

fun dec :: "nat \<Rightarrow> string" where
  "dec n = (if n < 10 then [digit_char n] else dec (n div 10) @ [digit_char (n mod 10)])"

declare dec.simps [simp del]

definition zpad :: "nat \<Rightarrow> nat \<Rightarrow> string" where
  "zpad w n = replicate (w - length (dec n)) (CHR ''0'') @ dec n"

text \<open>
  \<^verbatim>\<open>datetime.isoformat()\<close> of an aware UTC datetime:
  \<^verbatim>\<open>YYYY-MM-DDTHH:MM:SS+00:00\<close>, with \<^verbatim>\<open>.ffffff\<close> after the seconds exactly when
  the microsecond field is not zero. It is the date, the separator \<^verbatim>\<open>T\<close>, the time
  of the day and the offset from UTC.
\<close>

definition format_date :: "nat \<Rightarrow> nat \<Rightarrow> nat \<Rightarrow> string" where
  "format_date y m d = zpad 4 y @ ''-'' @ zpad 2 m @ ''-'' @ zpad 2 d"

definition format_time :: "nat \<Rightarrow> nat \<Rightarrow> nat \<Rightarrow> nat \<Rightarrow> string" where
  "format_time hh mm ss us =
     zpad 2 hh @ '':'' @ zpad 2 mm @ '':'' @ zpad 2 ss
       @ (if us \<noteq> 0 then ''.'' @ zpad 6 us else [])"

definition isoformat :: "datetime \<Rightarrow> string" where
  "isoformat t =
     (let day = nat (t div us_per_day);
          r = nat (t mod us_per_day);
          (y, m, d) = ord2ymd (day + 1);
          s = r div 1000000; us = r mod 1000000
      in format_date y m d @ ''T''
         @ format_time (s div 3600) (s mod 3600 div 60) (s mod 60) us
         @ ''+00:00'')"

text \<open>
  The datetimes Python represents: from \<^verbatim>\<open>datetime.min\<close>, ordinal 1, to the last
  microsecond of ordinal 3652059, the 31st of December 9999.
\<close>

definition datetime_valid :: "datetime \<Rightarrow> bool" where
  "datetime_valid t = (0 \<le> t \<and> t < 3652059 * us_per_day)"

section \<open>Identifiers: \<^verbatim>\<open>str(uuid.uuid4())\<close>\<close>

text \<open>
  A UUID is a 128-bit value; \<^verbatim>\<open>str\<close> renders it as 32 lower-case hexadecimal
  digits in groups of 8, 4, 4, 4 and 12, separated by hyphens.
\<close>

type_synonym uuid = "128 word"

definition hex_char :: "nat \<Rightarrow> char" where
  "hex_char d = ''0123456789abcdef'' ! (d mod 16)"

definition uuid_hex :: "uuid \<Rightarrow> string" where
  "uuid_hex u = map (\<lambda>i. hex_char (unat (drop_bit (4 * i) u AND 15))) (rev [0..<32])"

definition uuid_str :: "uuid \<Rightarrow> string" where
  "uuid_str u =
     (let h = uuid_hex u
      in take 8 h @ ''-'' @ take 4 (drop 8 h) @ ''-'' @ take 4 (drop 12 h) @ ''-''
         @ take 4 (drop 16 h) @ ''-'' @ drop 20 h)"

section \<open>The data model\<close>

text \<open>
  \<^verbatim>\<open>NewsletterSignup\<close>, the validated request body. Optional fields are
  \<open>None\<close> when absent.
\<close>

record NewsletterSignup =
  su_email :: string
  su_name :: "string option"
  su_source :: string
  su_campaign :: string
  su_interests :: "string list option"
  su_referrer :: "string option"
  su_user_agent :: "string option"
  su_ip_address :: "string option"
  su_utm_source :: "string option"
  su_utm_medium :: "string option"
  su_utm_campaign :: "string option"
  su_utm_content :: "string option"

text \<open>
  A row of the \<^verbatim>\<open>subscribers\<close> table, column by column. \<^verbatim>\<open>TEXT\<close> columns are
  strings, nullable ones are options, the two \<^verbatim>\<open>INTEGER\<close> flags are integers.
  The \<^verbatim>\<open>interests\<close> column holds the JSON rendering of a list of strings; the model
  keeps the list. Timestamps are stored as the text \<^verbatim>\<open>isoformat()\<close> returns.
\<close>

record subscriber =
  sid :: string
  email :: string
  name :: "string option"
  source :: string
  campaign :: string
  interests :: "string list option"
  referrer :: "string option"
  user_agent :: "string option"
  ip_address :: "string option"
  utm_source :: "string option"
  utm_medium :: "string option"
  utm_campaign :: "string option"
  utm_content :: "string option"
  is_active :: int
  is_confirmed :: int
  confirmation_token :: "string option"
  created_at :: string
  updated_at :: string
  last_email_sent :: "string option"
  unsubscribed_at :: "string option"
  metadata :: "string option"

text \<open>
  A row of the \<^verbatim>\<open>events\<close> table. \<^verbatim>\<open>event_data\<close> holds the JSON rendering of a
  dictionary from strings to strings or \<^verbatim>\<open>null\<close>; the model keeps the dictionary
  as the list of its items, in insertion order.
\<close>

datatype json_value = JNull | JString string

record event =
  event_id :: string
  event_subscriber_id :: "string option"
  event_type :: string
  event_data :: "(string \<times> json_value) list"
  event_created_at :: string

text \<open>
  The database: the rows of the two tables the operations below read and write, in
  insertion order. (The \<^verbatim>\<open>campaigns\<close> table is written once, at initialisation.)
\<close>

record store =
  subscribers :: "subscriber list"
  events :: "event list"

datatype error =
  IntegrityError
  | ValueError string
  | HTTPException nat string

text \<open>Python's truth value of an optional string: \<^verbatim>\<open>None\<close> and \<^verbatim>\<open>""\<close> are false.\<close>

definition truthy :: "string option \<Rightarrow> bool" where
  "truthy v = (case v of None \<Rightarrow> False | Some s \<Rightarrow> s \<noteq> [])"

definition json_opt :: "string option \<Rightarrow> json_value" where
  "json_opt v = (case v of None \<Rightarrow> JNull | Some s \<Rightarrow> JString s)"

section \<open>\<^verbatim>\<open>NewsletterDatabase\<close>\<close>

text \<open>
  What one call of \<^verbatim>\<open>add_subscriber\<close> draws from its environment: the UUIDs of the
  subscriber id and of the confirmation token, the clock reading \<^verbatim>\<open>now\<close>, and for
  each of the (at most two) calls of \<^verbatim>\<open>log_event\<close> its UUID and its clock reading.
\<close>

record entropy =
  subscriber_uuid :: uuid
  token_uuid :: uuid
  now :: datetime
  event_uuid :: uuid
  event_now :: datetime
  event_uuid2 :: uuid
  event_now2 :: datetime

text \<open>
  \<^verbatim>\<open>INSERT INTO subscribers\<close>: \<^verbatim>\<open>id\<close> is the primary key and \<^verbatim>\<open>email\<close> is
  \<^verbatim>\<open>UNIQUE\<close>; a row that repeats either raises \<^verbatim>\<open>sqlite3.IntegrityError\<close>.
\<close>

definition insert_subscriber :: "store \<Rightarrow> subscriber \<Rightarrow> error + store" where
  "insert_subscriber conn r =
     (if sid r \<in> set (map sid (subscribers conn)) \<or> email r \<in> set (map email (subscribers conn))
      then Inl IntegrityError
      else Inr (conn\<lparr>subscribers := subscribers conn @ [r]\<rparr>))"

text \<open>
  \<^verbatim>\<open>log_event\<close>: one \<^verbatim>\<open>INSERT INTO events\<close>, with a fresh UUID as primary key and
  the current time.
\<close>

definition log_event ::
  "store \<Rightarrow> uuid \<Rightarrow> datetime \<Rightarrow> string \<Rightarrow> string \<Rightarrow> (string \<times> json_value) list \<Rightarrow> error + store" where
  "log_event conn u t subscriber_id etype data =
     (let e = \<lparr>event_id = uuid_str u, event_subscriber_id = Some subscriber_id,
                event_type = etype, event_data = data, event_created_at = isoformat t\<rparr>
      in if event_id e \<in> set (map event_id (events conn))
         then Inl IntegrityError
         else Inr (conn\<lparr>events := events conn @ [e]\<rparr>))"

text \<open>
  The \<^verbatim>\<open>UPDATE subscribers SET ... WHERE email = ?\<close> of the reactivation.
\<close>

definition reactivate :: "string \<Rightarrow> NewsletterSignup \<Rightarrow> subscriber \<Rightarrow> subscriber" where
  "reactivate now_text signup r =
     (if email r = su_email signup
      then r\<lparr>is_active := 1, unsubscribed_at := None, updated_at := now_text,
              source := su_source signup, campaign := su_campaign signup\<rparr>
      else r)"

text \<open>
  The handler of \<^verbatim>\<open>sqlite3.IntegrityError\<close> in \<^verbatim>\<open>add_subscriber\<close>. \<open>st\<close> is the
  database as committed before the call, \<open>conn\<close> the connection's view of it. Leaving
  the connection without \<^verbatim>\<open>commit\<close> discards what the connection wrote, so every
  raise returns \<open>st\<close>.
\<close>

definition on_integrity_error ::
  "store \<Rightarrow> store \<Rightarrow> string \<Rightarrow> uuid \<Rightarrow> datetime \<Rightarrow> NewsletterSignup \<Rightarrow> (error + string) \<times> store" where
  "on_integrity_error st conn now_text u t signup =
     (case find (\<lambda>r. email r = su_email signup) (subscribers conn) of
        None \<Rightarrow> (Inl (ValueError ''Email already subscribed''), st)
      | Some result \<Rightarrow>
          if truthy (unsubscribed_at result)
          then
            (let conn' = conn\<lparr>subscribers := map (reactivate now_text signup) (subscribers conn)\<rparr>
             in case log_event conn' u t (sid result) ''resubscribe''
                       [(''source'', JString (su_source signup)),
                        (''campaign'', JString (su_campaign signup))] of
                  Inl e \<Rightarrow> (Inl e, st)
                | Inr conn'' \<Rightarrow> (Inr (sid result), conn''))
          else (Inl (ValueError ''Email already subscribed''), st))"

definition new_row :: "entropy \<Rightarrow> NewsletterSignup \<Rightarrow> string option \<Rightarrow> subscriber" where
  "new_row en signup ip =
     \<lparr>sid = uuid_str (subscriber_uuid en),
      email = su_email signup,
      name = su_name signup,
      source = su_source signup,
      campaign = su_campaign signup,
      interests = Some (case su_interests signup of None \<Rightarrow> [] | Some l \<Rightarrow> l),
      referrer = su_referrer signup,
      user_agent = su_user_agent signup,
      ip_address = ip,
      utm_source = su_utm_source signup,
      utm_medium = su_utm_medium signup,
      utm_campaign = su_utm_campaign signup,
      utm_content = su_utm_content signup,
      is_active = 1,
      is_confirmed = 0,
      confirmation_token = Some (uuid_str (token_uuid en)),
      created_at = isoformat (now en),
      updated_at = isoformat (now en),
      last_email_sent = None,
      unsubscribed_at = None,
      metadata = Some ''{}''\<rparr>"

text \<open>
  \<^verbatim>\<open>add_subscriber\<close> returns the subscriber id or the exception raised, and the
  database afterwards.
\<close>

definition add_subscriber ::
  "store \<Rightarrow> entropy \<Rightarrow> NewsletterSignup \<Rightarrow> string option \<Rightarrow> (error + string) \<times> store" where
  "add_subscriber st en signup ip =
     (let subscriber_id = uuid_str (subscriber_uuid en);
          now_text = isoformat (now en)
      in case insert_subscriber st (new_row en signup ip) of
           Inl _ \<Rightarrow>
             on_integrity_error st st now_text (event_uuid en) (event_now en) signup
         | Inr conn \<Rightarrow>
             (case log_event conn (event_uuid en) (event_now en) subscriber_id ''signup''
                     [(''source'', JString (su_source signup)),
                      (''campaign'', JString (su_campaign signup)),
                      (''ip'', json_opt ip)] of
                Inl _ \<Rightarrow>
                  on_integrity_error st conn now_text (event_uuid2 en) (event_now2 en) signup
              | Inr conn' \<Rightarrow> (Inr subscriber_id, conn')))"

subsection \<open>Analytics\<close>

text \<open>
  \<^verbatim>\<open>SELECT key, COUNT(*) ... GROUP BY key\<close>: one pair per distinct key, with the
  number of rows that have it. \<^verbatim>\<open>ORDER BY k DESC\<close> is a descending sort; the order
  among rows with equal sort keys is not determined by SQL, and the model fixes one.
\<close>

definition group_count :: "('r \<Rightarrow> 'k) \<Rightarrow> 'r list \<Rightarrow> ('k \<times> nat) list" where
  "group_count key rows =
     map (\<lambda>k. (k, length (filter (\<lambda>r. key r = k) rows))) (remdups (map key rows))"

definition order_by_desc :: "('r \<Rightarrow> 'k::linorder) \<Rightarrow> 'r list \<Rightarrow> 'r list" where
  "order_by_desc key rows = rev (sort_key key rows)"

text \<open>The total of an aggregate: the sum of the counts of its groups.\<close>

definition total_count :: "('k \<times> nat) list \<Rightarrow> nat" where
  "total_count groups = sum_list (map snd groups)"

text \<open>The rows selected by \<^verbatim>\<open>WHERE created_at >= ?\<close>, a comparison of \<^verbatim>\<open>TEXT\<close> values.\<close>

definition created_since :: "string \<Rightarrow> subscriber list \<Rightarrow> subscriber list" where
  "created_since cutoff_date rows = filter (\<lambda>r. cutoff_date \<le> created_at r) rows"

record countdown =
  days :: int
  hours :: int
  minutes :: int
  seconds :: int
  total_seconds :: int

definition launch_countdown_at :: "datetime \<Rightarrow> countdown" where
  "launch_countdown_at now_dt =
     (let time_diff = launch_date - now_dt
      in \<lparr>days = max 0 (td_days time_diff),
          hours = max 0 (td_seconds time_diff div 3600),
          minutes = max 0 (td_seconds time_diff mod 3600 div 60),
          seconds = max 0 (td_seconds time_diff mod 60),
          total_seconds = max 0 (int_total_seconds time_diff)\<rparr>)"

record analytics =
  total_subscribers :: nat
  active_subscribers :: nat
  confirmed_subscribers :: nat
  daily_signups :: "(string option \<times> nat) list"
  sources :: "(string \<times> nat) list"
  campaigns :: "(string \<times> nat) list"
  launch_countdown :: countdown

text \<open>
  \<^verbatim>\<open>get_analytics(days)\<close> reads the clock twice: \<open>now1\<close> for the cutoff date and
  \<open>now2\<close> for the countdown. \<open>DATE\<close> is SQLite's \<^verbatim>\<open>DATE()\<close> function, taken as a
  parameter: it yields the calendar date of a timestamp text, or \<^verbatim>\<open>NULL\<close> for a
  text it cannot read, and \<^verbatim>\<open>NULL\<close> sorts before every text.
  Where \<^verbatim>\<open>now - timedelta(days)\<close> leaves the years 1 to 9999 Python raises
  \<^verbatim>\<open>OverflowError\<close>; the model has no such raise, and the statements on the window
  assume the cutoff is a datetime Python represents.
\<close>

definition get_analytics ::
  "store \<Rightarrow> (string \<Rightarrow> string option) \<Rightarrow> int \<Rightarrow> datetime \<Rightarrow> datetime \<Rightarrow> analytics" where
  "get_analytics st DATE ndays now1 now2 =
     (let cutoff_date = isoformat (now1 - timedelta_days ndays);
          rows = subscribers st
      in \<lparr>total_subscribers = length rows,
          active_subscribers = length (filter (\<lambda>r. is_active r = 1) rows),
          confirmed_subscribers = length (filter (\<lambda>r. is_confirmed r = 1) rows),
          daily_signups =
            order_by_desc fst (group_count (\<lambda>r. DATE (created_at r)) (created_since cutoff_date rows)),
          sources = order_by_desc snd (group_count source (created_since cutoff_date rows)),
          campaigns = order_by_desc snd (group_count campaign (created_since cutoff_date rows)),
          launch_countdown = launch_countdown_at now2\<rparr>)"

subsection \<open>Export\<close>

definition export_subscribers :: "store \<Rightarrow> string option \<Rightarrow> subscriber list" where
  "export_subscribers st campaign_arg =
     (let active = filter (\<lambda>r. is_active r = 1) (subscribers st);
          selected =
            (if truthy campaign_arg
             then filter (\<lambda>r. Some (campaign r) = campaign_arg) active
             else active)
      in order_by_desc created_at selected)"

section \<open>The signup service\<close>

text \<open>
  What \<^verbatim>\<open>get_client_ip\<close> reads of the request: the \<^verbatim>\<open>X-Forwarded-For\<close> header
  and the host of \<^verbatim>\<open>request.client\<close>, each possibly absent.
\<close>

record request =
  x_forwarded_for :: "string option"
  client_host :: "string option"

definition get_client_ip :: "request \<Rightarrow> string" where
  "get_client_ip req =
     (if truthy (x_forwarded_for req)
      then takeWhile (\<lambda>c. c \<noteq> CHR '','') (the (x_forwarded_for req))
      else (case client_host req of Some h \<Rightarrow> h | None \<Rightarrow> ''unknown''))"

record NewsletterResponse =
  success :: bool
  message :: string
  subscriber_id :: "string option"

text \<open>Python's \<^verbatim>\<open>needle in haystack\<close> on strings.\<close>

fun starts_with :: "string \<Rightarrow> string \<Rightarrow> bool" where
  "starts_with [] s = True"
| "starts_with (p # ps) [] = False"
| "starts_with (p # ps) (c # cs) = (p = c \<and> starts_with ps cs)"

fun str_in :: "string \<Rightarrow> string \<Rightarrow> bool" where
  "str_in needle [] = (needle = [])"
| "str_in needle (c # cs) = (starts_with needle (c # cs) \<or> str_in needle cs)"

text \<open>\<^verbatim>\<open>str(e)\<close> of the exceptions \<^verbatim>\<open>add_subscriber\<close> can raise.\<close>

fun error_str :: "error \<Rightarrow> string" where
  "error_str (ValueError m) = m"
| "error_str IntegrityError = []"
| "error_str (HTTPException status detail) = detail"

text \<open>
  The two fixed messages. The first starts with the four UTF-8 bytes of U+1F389.
\<close>

definition welcome_message :: string where
  "welcome_message =
     [char_of (240::nat), char_of (159::nat), char_of (142::nat), char_of (137::nat)]
     @ '' You'' @ [char_of (39::nat)]
     @ ''re on the list! Check your email for exclusive updates.''"

definition already_message :: string where
  "already_message =
     ''You'' @ [char_of (39::nat)]
     @ ''re already on our list! Thanks for your continued interest.''"

text \<open>
  \<^verbatim>\<open>process_signup\<close> returns the response or the \<^verbatim>\<open>HTTPException\<close> raised, the
  database afterwards, and the welcome email handed to \<^verbatim>\<open>asyncio.create_task\<close>
  (recipient, name, confirmation token), if any.
\<close>

definition process_signup ::
  "store \<Rightarrow> entropy \<Rightarrow> NewsletterSignup \<Rightarrow> request
     \<Rightarrow> (error + NewsletterResponse) \<times> store \<times> (string \<times> string option \<times> string) option" where
  "process_signup st en signup req =
     (let ip_address = get_client_ip req
      in case add_subscriber st en signup (Some ip_address) of
           (Inr sub_id, st') \<Rightarrow>
             (Inr \<lparr>success = True, message = welcome_message, subscriber_id = Some sub_id\<rparr>,
              st', Some (su_email signup, su_name signup, sub_id))
         | (Inl (ValueError m), st') \<Rightarrow>
             if str_in ''already subscribed'' (error_str (ValueError m))
             then (Inr \<lparr>success = True, message = already_message, subscriber_id = None\<rparr>,
                   st', None)
             else (Inl (HTTPException 400 (error_str (ValueError m))), st', None)
         | (Inl e, st') \<Rightarrow>
             (Inl (HTTPException 500 ''Signup failed. Please try again.''), st', None))"

section \<open>Example data\<close>

text \<open>
  A small database and the inputs of a call, used to evaluate the operations on concrete
  values.
\<close>

definition mk_signup :: "string \<Rightarrow> string \<Rightarrow> string \<Rightarrow> NewsletterSignup" where
  "mk_signup e src camp =
     \<lparr>su_email = e, su_name = None, su_source = src, su_campaign = camp,
      su_interests = None, su_referrer = None, su_user_agent = None, su_ip_address = None,
      su_utm_source = None, su_utm_medium = None, su_utm_campaign = None,
      su_utm_content = None\<rparr>"

definition mk_row ::
  "string \<Rightarrow> string \<Rightarrow> string \<Rightarrow> string \<Rightarrow> int \<Rightarrow> string \<Rightarrow> string option \<Rightarrow> subscriber" where
  "mk_row i e src camp act created unsub =
     \<lparr>sid = i, email = e, name = None, source = src, campaign = camp,
      interests = Some [], referrer = None, user_agent = None,
      ip_address = Some ''10.0.0.1'',
      utm_source = None, utm_medium = None, utm_campaign = None, utm_content = None,
      is_active = act, is_confirmed = 0, confirmation_token = Some ''token'',
      created_at = created, updated_at = created, last_email_sent = None,
      unsubscribed_at = unsub, metadata = Some ''{}''\<rparr>"

definition example_signup :: NewsletterSignup where
  "example_signup = mk_signup ''a@example.com'' ''landing_page'' ''early_access_2025''"

definition example_entropy :: entropy where
  "example_entropy =
     \<lparr>subscriber_uuid = 1, token_uuid = 2, now = launch_date - timedelta_days 5,
      event_uuid = 3, event_now = launch_date - timedelta_days 5,
      event_uuid2 = 4, event_now2 = launch_date - timedelta_days 5\<rparr>"

definition example_request :: request where
  "example_request = \<lparr>x_forwarded_for = Some ''203.0.113.7, 10.0.0.2'', client_host = None\<rparr>"

text \<open>
  A database whose only subscriber is \<^verbatim>\<open>a@example.com\<close>, with the given
  \<^verbatim>\<open>is_active\<close> and \<^verbatim>\<open>unsubscribed_at\<close>, and one earlier event.
\<close>

definition example_row :: "int \<Rightarrow> string option \<Rightarrow> subscriber" where
  "example_row act unsub =
     mk_row ''id-a'' ''a@example.com'' ''twitter'' ''beta'' act ''2025-08-01T10:00:00+00:00'' unsub"

definition example_store :: "int \<Rightarrow> string option \<Rightarrow> store" where
  "example_store act unsub =
     \<lparr>subscribers = [example_row act unsub],
      events = [\<lparr>event_id = ''event-0'', event_subscriber_id = Some ''id-a'',
                 event_type = ''signup'', event_data = [],
                 event_created_at = ''2025-08-01T10:00:00+00:00''\<rparr>]\<rparr>"

definition empty_store :: store where
  "empty_store = \<lparr>subscribers = [], events = []\<rparr>"

text \<open>A database with four subscribers, one of them unsubscribed, and no event.\<close>

definition example_rows :: "subscriber list" where
  "example_rows =
     [mk_row ''id-1'' ''a@example.com'' ''twitter'' ''beta'' 1
        ''2025-08-01T10:00:00+00:00'' None,
      mk_row ''id-2'' ''b@example.com'' ''landing_page'' ''early_access_2025'' 1
        ''2025-08-20T09:30:00.500000+00:00'' None,
      mk_row ''id-3'' ''c@example.com'' ''landing_page'' ''beta'' 0
        ''2025-08-25T12:00:00+00:00'' (Some ''2025-08-26T08:00:00+00:00''),
      mk_row ''id-4'' ''d@example.com'' ''landing_page'' [] 1
        ''2025-07-01T00:00:00+00:00'' None]"

definition example_db :: store where
  "example_db = \<lparr>subscribers = example_rows, events = []\<rparr>"

section \<open>The launch countdown\<close>

lemma launch_date_value: "launch_date = 63892281600000000"
  by (simp add: launch_date_def mk_datetime_def ymd2ord_def days_before_year_def
      days_before_month_def DAYS_BEFORE_MONTH_def is_leap_def us_per_second_def)

lemmas countdown_defs =
  get_analytics_def launch_countdown_at_def td_days_def td_seconds_def
  int_total_seconds_def us_per_day_def us_per_second_def Let_def

text \<open>
  Once the launch instant has passed, \<^verbatim>\<open>time_diff\<close> is negative: its \<^verbatim>\<open>days\<close>
  field is negative and \<^verbatim>\<open>max\<close> floors it, and so for the total of seconds. Its
  \<^verbatim>\<open>seconds\<close> field is never negative, so \<^verbatim>\<open>max(0, ...)\<close> changes nothing in
  hours, minutes and seconds.
\<close>

lemma countdown_after_launch_days_total:
  "launch_date \<le> now2 \<Longrightarrow>
     days (launch_countdown (get_analytics st DATE ndays now1 now2)) = 0 \<and>
     total_seconds (launch_countdown (get_analytics st DATE ndays now1 now2)) = 0"
  by (simp add: countdown_defs)

lemma countdown_at_launch:
  "launch_countdown (get_analytics st DATE ndays now1 launch_date) =
     \<lparr>days = 0, hours = 0, minutes = 0, seconds = 0, total_seconds = 0\<rparr>"
  by (simp add: countdown_defs)

text \<open>
  Claim C1: for every time \<open>now\<close> at or after the launch instant, the countdown returned by
  \<^verbatim>\<open>get_analytics\<close> has days, hours, minutes, seconds and total_seconds all zero.
  The code does not do that: one second after the launch instant the countdown reads
  0 days, 23 hours, 59 minutes, 59 seconds, with a total of 0 seconds.
\<close>

theorem C1_countdown_one_second_after_launch:
  "launch_countdown (get_analytics st DATE ndays now1 (launch_date + us_per_second)) =
     \<lparr>days = 0, hours = 23, minutes = 59, seconds = 59, total_seconds = 0\<rparr>"
  by (simp add: countdown_defs)

text \<open>
  Claim C6: for \<open>now\<close> equal to the launch instant minus 90,061 seconds, the countdown
  returned by \<^verbatim>\<open>get_analytics\<close> has days = 1, hours = 1, minutes = 1, seconds = 1 and
  total_seconds = 90061.
\<close>

theorem C6_countdown_90061_seconds_before_launch:
  "launch_countdown (get_analytics st DATE ndays now1 (launch_date - 90061 * us_per_second)) =
     \<lparr>days = 1, hours = 1, minutes = 1, seconds = 1, total_seconds = 90061\<rparr>"
  by (simp add: countdown_defs)

section \<open>Adding a subscriber\<close>

lemma length_uuid_str: "length (uuid_str u) = 36"
  by (simp add: uuid_str_def uuid_hex_def Let_def)

lemma uuid_str_nonempty: "uuid_str u \<noteq> []"
  using length_uuid_str [of u] by auto

lemma insert_existing_email:
  "r0 \<in> set (subscribers st) \<Longrightarrow> email r0 = su_email signup \<Longrightarrow>
     insert_subscriber st (new_row en signup ip) = Inl IntegrityError"
  by (force simp: insert_subscriber_def new_row_def)

text \<open>
  \<^verbatim>\<open>email\<close> is \<^verbatim>\<open>UNIQUE\<close>: in every database the emails of the rows are distinct,
  and the \<^verbatim>\<open>SELECT ... WHERE email = ?\<close> and the \<^verbatim>\<open>UPDATE ... WHERE email = ?\<close>
  reach the one row with that email.
\<close>

lemma find_unique_email:
  "distinct (map email rows) \<Longrightarrow> r0 \<in> set rows \<Longrightarrow> email r0 = e \<Longrightarrow>
     find (\<lambda>r. email r = e) rows = Some r0"
proof (induction rows)
  case Nil
  then show ?case by simp
next
  case (Cons a rows)
  then show ?case by (auto simp: image_iff)
qed

lemma reactivate_unique:
  "distinct (map email rows) \<Longrightarrow> r0 \<in> set rows \<Longrightarrow> email r0 = su_email signup \<Longrightarrow>
     map (reactivate t signup) rows =
       map (\<lambda>r. if r = r0 then reactivate t signup r0 else r) rows"
  by (rule map_cong) (auto simp: reactivate_def distinct_map inj_on_def)

lemma add_subscriber_existing:
  assumes "r0 \<in> set (subscribers st)" and "email r0 = su_email signup"
  shows "add_subscriber st en signup ip =
           on_integrity_error st st (isoformat (now en)) (event_uuid en) (event_now en) signup"
  using insert_existing_email [OF assms, of en ip] by (simp add: add_subscriber_def)

text \<open>A new email, with identifiers that are new too: the row and its event are written.\<close>

lemma add_subscriber_fresh:
  assumes "su_email signup \<notin> set (map email (subscribers st))"
    and "uuid_str (subscriber_uuid en) \<notin> set (map sid (subscribers st))"
    and "uuid_str (event_uuid en) \<notin> set (map event_id (events st))"
  shows "add_subscriber st en signup ip =
    (Inr (uuid_str (subscriber_uuid en)),
     st\<lparr>subscribers := subscribers st @ [new_row en signup ip],
        events := events st @
          [\<lparr>event_id = uuid_str (event_uuid en),
            event_subscriber_id = Some (uuid_str (subscriber_uuid en)),
            event_type = ''signup'',
            event_data = [(''source'', JString (su_source signup)),
                          (''campaign'', JString (su_campaign signup)),
                          (''ip'', json_opt ip)],
            event_created_at = isoformat (event_now en)\<rparr>]\<rparr>)"
proof -
  have i: "insert_subscriber st (new_row en signup ip) =
      Inr (st\<lparr>subscribers := subscribers st @ [new_row en signup ip]\<rparr>)"
    using assms(1,2) by (simp add: insert_subscriber_def new_row_def)
  show ?thesis
    using assms(3) by (simp add: add_subscriber_def i log_event_def Let_def)
qed

text \<open>An existing row whose \<^verbatim>\<open>unsubscribed_at\<close> is true in Python's sense is reactivated.\<close>

lemma add_subscriber_reactivation:
  assumes "distinct (map email (subscribers st))"
    and "r0 \<in> set (subscribers st)" and "email r0 = su_email signup"
    and "unsubscribed_at r0 = Some t" and "t \<noteq> []"
    and "uuid_str (event_uuid en) \<notin> set (map event_id (events st))"
  shows "add_subscriber st en signup ip =
    (Inr (sid r0),
     st\<lparr>subscribers :=
          map (\<lambda>r. if r = r0
                   then r0\<lparr>is_active := 1, unsubscribed_at := None,
                           updated_at := isoformat (now en),
                           source := su_source signup, campaign := su_campaign signup\<rparr>
                   else r) (subscribers st),
        events := events st @
          [\<lparr>event_id = uuid_str (event_uuid en), event_subscriber_id = Some (sid r0),
            event_type = ''resubscribe'',
            event_data = [(''source'', JString (su_source signup)),
                          (''campaign'', JString (su_campaign signup))],
            event_created_at = isoformat (event_now en)\<rparr>]\<rparr>)"
proof -
  have f: "find (\<lambda>r. email r = su_email signup) (subscribers st) = Some r0"
    by (rule find_unique_email [OF assms(1,2,3)])
  have m: "map (reactivate (isoformat (now en)) signup) (subscribers st) =
       map (\<lambda>r. if r = r0 then reactivate (isoformat (now en)) signup r0 else r) (subscribers st)"
    by (rule reactivate_unique [OF assms(1,2,3)])
  have r: "reactivate (isoformat (now en)) signup r0 =
     r0\<lparr>is_active := 1, unsubscribed_at := None, updated_at := isoformat (now en),
        source := su_source signup, campaign := su_campaign signup\<rparr>"
    using assms(3) by (simp add: reactivate_def)
  show ?thesis
    using assms(4,5,6)
    by (simp add: add_subscriber_existing [OF assms(2,3)] on_integrity_error_def f m r
        truthy_def log_event_def Let_def)
qed

text \<open>An existing row whose \<^verbatim>\<open>unsubscribed_at\<close> is false in Python's sense: the call raises.\<close>

lemma add_subscriber_already:
  assumes "distinct (map email (subscribers st))"
    and "r0 \<in> set (subscribers st)" and "email r0 = su_email signup"
    and "\<not> truthy (unsubscribed_at r0)"
  shows "add_subscriber st en signup ip = (Inl (ValueError ''Email already subscribed''), st)"
  using assms find_unique_email [OF assms(1,2,3)]
  by (simp add: add_subscriber_existing [OF assms(2,3)] on_integrity_error_def)

text \<open>The only \<^verbatim>\<open>ValueError\<close> the call raises has the fixed message.\<close>

lemma on_integrity_error_ValueError:
  "fst (on_integrity_error st conn t u tn signup) = Inl (ValueError m) \<Longrightarrow>
     m = ''Email already subscribed''"
  by (auto simp: on_integrity_error_def log_event_def Let_def
      split: option.splits if_splits)

lemma add_subscriber_ValueError:
  "fst (add_subscriber st en signup ip) = Inl (ValueError m) \<Longrightarrow>
     m = ''Email already subscribed''"
  by (auto simp: add_subscriber_def Let_def split: sum.splits
      dest: on_integrity_error_ValueError)

lemmas example_defs =
  example_store_def example_row_def mk_row_def example_signup_def mk_signup_def

lemma example_event_fresh:
  "uuid_str (event_uuid example_entropy) \<notin> set (map event_id (events (example_store a u)))"
proof -
  have "length (uuid_str (event_uuid example_entropy)) \<noteq> length ''event-0''"
    by (simp add: length_uuid_str)
  then show ?thesis
    by (auto simp: example_store_def)
qed

lemma example_already:
  "add_subscriber (example_store a None) example_entropy example_signup ip =
     (Inl (ValueError ''Email already subscribed''), example_store a None)"
  by (simp add: add_subscriber_def insert_subscriber_def new_row_def example_defs
      on_integrity_error_def truthy_def)

lemma isoformat_nonempty: "isoformat t \<noteq> []"
  by (simp add: isoformat_def Let_def split: prod.splits)

text \<open>
  Claim C2: for every email E with an existing subscriber row whose \<^verbatim>\<open>unsubscribed_at\<close>
  is non-null, \<^verbatim>\<open>add_subscriber\<close> returns the existing row's id, sets
  \<^verbatim>\<open>is_active = 1\<close>, \<^verbatim>\<open>unsubscribed_at = NULL\<close>, \<^verbatim>\<open>updated_at\<close> to the current
  time, overwrites source and campaign with the signup's values while preserving every other
  column, creates no new row, and appends one \<^verbatim>\<open>resubscribe\<close> event referencing the
  existing id.

  The column holds a timestamp, and the text of a timestamp is never empty (every text
  \<^verbatim>\<open>isoformat\<close> makes ends with the offset), so a value that is not null is true in
  Python's sense, which is what the code tests. The row \<open>r0\<close> is replaced by its update,
  every other row is kept as it is, the table has as many rows as before, and one event is
  appended, under the UUID drawn for it.
\<close>

theorem C2_reactivation:
  assumes "distinct (map email (subscribers st))"
    and "r0 \<in> set (subscribers st)" and "email r0 = su_email signup"
    and "unsubscribed_at r0 = Some t" and "t \<noteq> []"
    and "uuid_str (event_uuid en) \<notin> set (map event_id (events st))"
  shows "add_subscriber st en signup ip =
    (Inr (sid r0),
     st\<lparr>subscribers :=
          map (\<lambda>r. if r = r0
                   then r0\<lparr>is_active := 1, unsubscribed_at := None,
                           updated_at := isoformat (now en),
                           source := su_source signup, campaign := su_campaign signup\<rparr>
                   else r) (subscribers st),
        events := events st @
          [\<lparr>event_id = uuid_str (event_uuid en), event_subscriber_id = Some (sid r0),
            event_type = ''resubscribe'',
            event_data = [(''source'', JString (su_source signup)),
                          (''campaign'', JString (su_campaign signup))],
            event_created_at = isoformat (event_now en)\<rparr>]\<rparr>)
    \<and> length (subscribers (snd (add_subscriber st en signup ip))) = length (subscribers st)"
  using add_subscriber_reactivation [OF assms] by simp

theorem C2_reactivation_witness:
  "add_subscriber (example_store 0 (Some ''2025-08-10T00:00:00+00:00'')) example_entropy
      example_signup (Some ''203.0.113.7'') =
    (Inr ''id-a'',
     \<lparr>subscribers =
        [(mk_row ''id-a'' ''a@example.com'' ''landing_page'' ''early_access_2025'' 1
            ''2025-08-01T10:00:00+00:00'' None)
          \<lparr>updated_at := isoformat (now example_entropy)\<rparr>],
      events = events (example_store 0 (Some ''2025-08-10T00:00:00+00:00'')) @
          [\<lparr>event_id = uuid_str (event_uuid example_entropy),
            event_subscriber_id = Some ''id-a'',
            event_type = ''resubscribe'',
            event_data = [(''source'', JString ''landing_page''),
                          (''campaign'', JString ''early_access_2025'')],
            event_created_at = isoformat (event_now example_entropy)\<rparr>]\<rparr>)"
  using C2_reactivation [of "example_store 0 (Some ''2025-08-10T00:00:00+00:00'')"
      "example_row 0 (Some ''2025-08-10T00:00:00+00:00'')" example_signup
      "''2025-08-10T00:00:00+00:00''" example_entropy "Some ''203.0.113.7''"]
    example_event_fresh [of 0 "Some ''2025-08-10T00:00:00+00:00''"]
  by (simp add: example_defs)

text \<open>
  Claim C3: for every email E with an existing subscriber row that is not unsubscribed,
  \<^verbatim>\<open>add_subscriber\<close> fails with an AlreadySubscribed error carrying the existing email,
  and leaves the store unchanged.

  The error the code raises is \<^verbatim>\<open>ValueError("Email already subscribed")\<close>: it carries
  the fixed message and not the email. The rest holds: the call raises and the database is
  what it was, for a row whose \<^verbatim>\<open>unsubscribed_at\<close> is null (or the empty text).
\<close>

theorem C3_already_subscribed:
  assumes "distinct (map email (subscribers st))"
    and "r0 \<in> set (subscribers st)" and "email r0 = su_email signup"
    and "\<not> truthy (unsubscribed_at r0)"
  shows "fst (add_subscriber st en signup ip) = Inl (ValueError ''Email already subscribed'')
    \<and> snd (add_subscriber st en signup ip) = st"
  using add_subscriber_already [OF assms] by simp

theorem C3_already_subscribed_witness:
  "fst (add_subscriber (example_store 1 None) example_entropy example_signup
          (Some ''203.0.113.7'')) = Inl (ValueError ''Email already subscribed'')
   \<and> snd (add_subscriber (example_store 1 None) example_entropy example_signup
          (Some ''203.0.113.7'')) = example_store 1 None"
  using C3_already_subscribed [of "example_store 1 None" "example_row 1 None" example_signup
      example_entropy "Some ''203.0.113.7''"]
  by (simp add: example_defs truthy_def)

theorem C3_error_without_email_counterexample:
  "fst (add_subscriber (example_store 1 None) example_entropy example_signup
          (Some ''203.0.113.7'')) = Inl (ValueError ''Email already subscribed'')
   \<and> \<not> str_in (su_email example_signup) (error_str (ValueError ''Email already subscribed''))"
  by (simp add: example_already) (simp add: example_signup_def mk_signup_def)

text \<open>
  Claim C8: the reactivation branch is chosen by \<^verbatim>\<open>unsubscribed_at\<close> alone: for an
  existing row with \<^verbatim>\<open>unsubscribed_at\<close> null, \<^verbatim>\<open>add_subscriber\<close> raises the
  already-subscribed error and does not reactivate the row, whatever its \<^verbatim>\<open>is_active\<close>
  is (0 included). Nothing is assumed of \<open>is_active r0\<close>; the row is still in the table,
  as it was.
\<close>

theorem C8_null_unsubscribed_at_never_reactivated:
  assumes "distinct (map email (subscribers st))"
    and "r0 \<in> set (subscribers st)" and "email r0 = su_email signup"
    and "unsubscribed_at r0 = None"
  shows "add_subscriber st en signup ip = (Inl (ValueError ''Email already subscribed''), st)
    \<and> r0 \<in> set (subscribers (snd (add_subscriber st en signup ip)))"
proof -
  have "\<not> truthy (unsubscribed_at r0)"
    using assms(4) by (simp add: truthy_def)
  from add_subscriber_already [OF assms(1,2,3) this] assms(2) show ?thesis
    by simp
qed

theorem C8_null_unsubscribed_at_witness:
  "is_active (example_row 0 None) = 0 \<and>
   add_subscriber (example_store 0 None) example_entropy example_signup (Some ''203.0.113.7'')
     = (Inl (ValueError ''Email already subscribed''), example_store 0 None)"
  using C8_null_unsubscribed_at_never_reactivated [of "example_store 0 None"
      "example_row 0 None" example_signup example_entropy "Some ''203.0.113.7''"]
  by (simp add: example_defs)

text \<open>
  Claim C10: on the reactivation path the \<^verbatim>\<open>ip_address\<close> argument is recorded nowhere:
  the result and the database afterwards are the same for any two values of the argument,
  the \<^verbatim>\<open>ip_address\<close> column of every row is what it was, and the data of the
  \<^verbatim>\<open>resubscribe\<close> event appended holds the source and the campaign only; the data of the
  \<^verbatim>\<open>signup\<close> event of a new subscriber (database \<open>st2\<close>) holds the ip as well.
\<close>

theorem C10_reactivation_ignores_ip:
  assumes "distinct (map email (subscribers st))"
    and "r0 \<in> set (subscribers st)" and "email r0 = su_email signup"
    and "unsubscribed_at r0 = Some t" and "t \<noteq> []"
    and "uuid_str (event_uuid en) \<notin> set (map event_id (events st))"
    and "su_email signup2 \<notin> set (map email (subscribers st2))"
    and "uuid_str (subscriber_uuid en2) \<notin> set (map sid (subscribers st2))"
    and "uuid_str (event_uuid en2) \<notin> set (map event_id (events st2))"
  shows "add_subscriber st en signup ip = add_subscriber st en signup ip'
    \<and> map ip_address (subscribers (snd (add_subscriber st en signup ip))) =
        map ip_address (subscribers st)
    \<and> butlast (events (snd (add_subscriber st en signup ip))) = events st
    \<and> event_type (last (events (snd (add_subscriber st en signup ip)))) = ''resubscribe''
    \<and> event_data (last (events (snd (add_subscriber st en signup ip)))) =
        [(''source'', JString (su_source signup)), (''campaign'', JString (su_campaign signup))]
    \<and> event_type (last (events (snd (add_subscriber st2 en2 signup2 ip)))) = ''signup''
    \<and> event_data (last (events (snd (add_subscriber st2 en2 signup2 ip)))) =
        [(''source'', JString (su_source signup2)), (''campaign'', JString (su_campaign signup2)),
         (''ip'', json_opt ip)]"
proof -
  note re = add_subscriber_reactivation [OF assms(1-6)]
  have "map ip_address (map (\<lambda>r. if r = r0
                   then r0\<lparr>is_active := 1, unsubscribed_at := None,
                           updated_at := isoformat (now en),
                           source := su_source signup, campaign := su_campaign signup\<rparr>
                   else r) (subscribers st)) = map ip_address (subscribers st)"
    by (induction "subscribers st") auto
  then show ?thesis
    by (simp add: re add_subscriber_fresh [OF assms(7-9)])
qed

theorem C10_reactivation_ignores_ip_witness:
  "add_subscriber (example_store 0 (Some ''2025-08-10T00:00:00+00:00'')) example_entropy
      example_signup (Some ''203.0.113.7'')
   = add_subscriber (example_store 0 (Some ''2025-08-10T00:00:00+00:00'')) example_entropy
      example_signup None
   \<and> map ip_address (subscribers (snd (add_subscriber
        (example_store 0 (Some ''2025-08-10T00:00:00+00:00'')) example_entropy
        example_signup (Some ''203.0.113.7'')))) =
       map ip_address (subscribers (example_store 0 (Some ''2025-08-10T00:00:00+00:00'')))
   \<and> event_data (last (events (snd (add_subscriber
        (example_store 0 (Some ''2025-08-10T00:00:00+00:00'')) example_entropy
        example_signup (Some ''203.0.113.7''))))) =
        [(''source'', JString (su_source example_signup)),
         (''campaign'', JString (su_campaign example_signup))]
   \<and> event_data (last (events (snd (add_subscriber empty_store example_entropy
        example_signup (Some ''203.0.113.7''))))) =
        [(''source'', JString (su_source example_signup)),
         (''campaign'', JString (su_campaign example_signup)),
         (''ip'', json_opt (Some ''203.0.113.7''))]"
proof -
  let ?st = "example_store 0 (Some ''2025-08-10T00:00:00+00:00'')"
  let ?r = "example_row 0 (Some ''2025-08-10T00:00:00+00:00'')"
  have h1: "distinct (map email (subscribers ?st))"
    and h2: "?r \<in> set (subscribers ?st)"
    and h3: "email ?r = su_email example_signup"
    and h4: "unsubscribed_at ?r = Some ''2025-08-10T00:00:00+00:00''"
    and h5: "''2025-08-10T00:00:00+00:00'' \<noteq> []"
    by (simp_all add: example_defs)
  have h6: "uuid_str (event_uuid example_entropy) \<notin> set (map event_id (events ?st))"
    by (rule example_event_fresh)
  have h7: "su_email example_signup \<notin> set (map email (subscribers empty_store))"
    and h8: "uuid_str (subscriber_uuid example_entropy) \<notin> set (map sid (subscribers empty_store))"
    and h9: "uuid_str (event_uuid example_entropy) \<notin> set (map event_id (events empty_store))"
    by (simp_all add: empty_store_def)
  from C10_reactivation_ignores_ip [OF h1 h2 h3 h4 h5 h6 h7 h8 h9, of "Some ''203.0.113.7''" None]
  show ?thesis by blast
qed

section \<open>The responses of the signup service\<close>

lemma already_in_message: "str_in ''already'' already_message"
  by (simp add: already_message_def)

text \<open>
  Claim C7: for every signup request, the signup service returns, on a fresh email, a success
  result with a non-empty subscriber id; on an AlreadySubscribed outcome, a success-shaped
  result (\<^verbatim>\<open>success = true\<close>) whose message contains "already" and which carries no
  subscriber id. A fresh email is one no row has, with the UUIDs drawn for the row and for
  its event new as well; the AlreadySubscribed outcome is the \<^verbatim>\<open>ValueError\<close> of
  \<^verbatim>\<open>add_subscriber\<close>.
\<close>

theorem C7_signup_responses:
  "(su_email signup \<notin> set (map email (subscribers st)) \<and>
    uuid_str (subscriber_uuid en) \<notin> set (map sid (subscribers st)) \<and>
    uuid_str (event_uuid en) \<notin> set (map event_id (events st))
    \<longrightarrow> (\<exists>i. fst (process_signup st en signup req) =
               Inr \<lparr>success = True, message = welcome_message, subscriber_id = Some i\<rparr>
             \<and> i \<noteq> []))
   \<and> (fst (add_subscriber st en signup (Some (get_client_ip req))) = Inl (ValueError m)
    \<longrightarrow> fst (process_signup st en signup req) =
          Inr \<lparr>success = True, message = already_message, subscriber_id = None\<rparr>
        \<and> str_in ''already'' already_message)"
proof (intro conjI impI)
  assume "su_email signup \<notin> set (map email (subscribers st)) \<and>
    uuid_str (subscriber_uuid en) \<notin> set (map sid (subscribers st)) \<and>
    uuid_str (event_uuid en) \<notin> set (map event_id (events st))"
  then have "fst (process_signup st en signup req) =
      Inr \<lparr>success = True, message = welcome_message,
           subscriber_id = Some (uuid_str (subscriber_uuid en))\<rparr>"
    by (simp add: process_signup_def add_subscriber_fresh Let_def)
  then show "\<exists>i. fst (process_signup st en signup req) =
               Inr \<lparr>success = True, message = welcome_message, subscriber_id = Some i\<rparr>
             \<and> i \<noteq> []"
    using uuid_str_nonempty by blast
next
  assume a: "fst (add_subscriber st en signup (Some (get_client_ip req))) = Inl (ValueError m)"
  then have m: "m = ''Email already subscribed''"
    by (rule add_subscriber_ValueError)
  obtain st' where
    "add_subscriber st en signup (Some (get_client_ip req)) = (Inl (ValueError m), st')"
    using a by (cases "add_subscriber st en signup (Some (get_client_ip req))") auto
  then show "fst (process_signup st en signup req) =
          Inr \<lparr>success = True, message = already_message, subscriber_id = None\<rparr>"
    using m by (simp add: process_signup_def Let_def)
next
  show "str_in ''already'' already_message" by (rule already_in_message)
qed

theorem C7_signup_responses_witness:
  "(\<exists>i. fst (process_signup empty_store example_entropy example_signup example_request) =
               Inr \<lparr>success = True, message = welcome_message, subscriber_id = Some i\<rparr>
             \<and> i \<noteq> [])
   \<and> fst (add_subscriber (example_store 1 None) example_entropy example_signup
           (Some (get_client_ip example_request))) = Inl (ValueError ''Email already subscribed'')
   \<and> fst (process_signup (example_store 1 None) example_entropy example_signup example_request) =
          Inr \<lparr>success = True, message = already_message, subscriber_id = None\<rparr>"
proof -
  have f: "su_email example_signup \<notin> set (map email (subscribers empty_store)) \<and>
    uuid_str (subscriber_uuid example_entropy) \<notin> set (map sid (subscribers empty_store)) \<and>
    uuid_str (event_uuid example_entropy) \<notin> set (map event_id (events empty_store))"
    by (simp add: empty_store_def)
  have e: "fst (add_subscriber (example_store 1 None) example_entropy example_signup
           (Some (get_client_ip example_request))) = Inl (ValueError ''Email already subscribed'')"
    by (simp add: example_already)
  show ?thesis
    using C7_signup_responses [of example_signup empty_store example_entropy example_request] f
      C7_signup_responses [of example_signup "example_store 1 None" example_entropy
        example_request "''Email already subscribed''"] e
    by blast
qed

section \<open>Export\<close>

lemma mset_order_by_desc: "mset (order_by_desc k rows) = mset rows"
  by (simp add: order_by_desc_def)

lemma set_order_by_desc: "set (order_by_desc k rows) = set rows"
  by (simp add: order_by_desc_def)

lemma sorted_order_by_desc: "sorted (rev (map k (order_by_desc k rows)))"
  by (simp add: order_by_desc_def rev_map)

lemma export_example:
  "map sid (export_subscribers example_db None) = [''id-2'', ''id-1'', ''id-4'']"
  by (simp add: export_subscribers_def example_db_def example_rows_def mk_row_def truthy_def
      order_by_desc_def)

text \<open>
  Claim C4: for every store state and every campaign filter, \<^verbatim>\<open>export_subscribers\<close>
  returns exactly the subscribers with \<^verbatim>\<open>is_active\<close> true (never a row with
  \<^verbatim>\<open>is_active\<close> false), filtered by exact campaign match when a campaign is given,
  ordered by \<^verbatim>\<open>created_at\<close> descending.

  A row is active when its \<^verbatim>\<open>is_active\<close> column is 1, as the query has it, and the
  rows returned are those rows, each as often as the table has it. The campaign is matched
  exactly when the argument is a non-empty string. The empty string is a campaign filter
  too, and for it the code adds no condition on the campaign (\<^verbatim>\<open>if campaign:\<close>): all the
  active rows are returned, whatever their campaign.
\<close>

theorem C4_export_active_filtered_sorted:
  "mset (export_subscribers st None) = mset (filter (\<lambda>r. is_active r = 1) (subscribers st))
   \<and> mset (export_subscribers st (Some [])) =
        mset (filter (\<lambda>r. is_active r = 1) (subscribers st))
   \<and> (c \<noteq> [] \<longrightarrow>
        mset (export_subscribers st (Some c)) =
          mset (filter (\<lambda>r. is_active r = 1 \<and> campaign r = c) (subscribers st)))
   \<and> sorted (rev (map created_at (export_subscribers st arg)))
   \<and> (\<forall>r \<in> set (export_subscribers st arg). is_active r = 1)"
  by (auto simp: export_subscribers_def mset_order_by_desc set_order_by_desc sorted_order_by_desc
      truthy_def Let_def)

theorem C4_export_witness:
  "mset (export_subscribers example_db (Some ''beta'')) =
     mset (filter (\<lambda>r. is_active r = 1 \<and> campaign r = ''beta'') (subscribers example_db))
   \<and> filter (\<lambda>r. is_active r = 1 \<and> campaign r = ''beta'') (subscribers example_db)
       = [mk_row ''id-1'' ''a@example.com'' ''twitter'' ''beta'' 1
        ''2025-08-01T10:00:00+00:00'' None]
   \<and> list_all (\<lambda>r. is_active r = 1) (export_subscribers example_db (Some ''beta''))"
proof -
  have "''beta'' \<noteq> []" by simp
  moreover have "filter (\<lambda>r. is_active r = 1 \<and> campaign r = ''beta'') (subscribers example_db)
       = [mk_row ''id-1'' ''a@example.com'' ''twitter'' ''beta'' 1
        ''2025-08-01T10:00:00+00:00'' None]"
    by (simp add: example_db_def example_rows_def mk_row_def)
  ultimately show ?thesis
    using C4_export_active_filtered_sorted [of example_db "''beta''" "Some ''beta''"]
    by (simp add: list_all_iff)
qed

text \<open>
  The claim as stated fails for the empty string given as the campaign: the export has the
  three active rows, of which one has the empty string as its campaign.
\<close>

theorem C4_empty_campaign_counterexample:
  "map sid (export_subscribers example_db (Some [])) = [''id-2'', ''id-1'', ''id-4'']
   \<and> map sid (filter (\<lambda>r. is_active r = 1 \<and> campaign r = []) (subscribers example_db))
       = [''id-4'']
   \<and> mset (export_subscribers example_db (Some [])) \<noteq>
       mset (filter (\<lambda>r. is_active r = 1 \<and> campaign r = []) (subscribers example_db))"
proof -
  have e: "map sid (export_subscribers example_db (Some [])) = [''id-2'', ''id-1'', ''id-4'']"
    by (simp add: export_subscribers_def example_db_def example_rows_def mk_row_def truthy_def
        order_by_desc_def)
  have f: "map sid (filter (\<lambda>r. is_active r = 1 \<and> campaign r = []) (subscribers example_db))
       = [''id-4'']"
    by (simp add: example_db_def example_rows_def mk_row_def)
  have le: "length (export_subscribers example_db (Some [])) = 3"
    using arg_cong [OF e, of length] by simp
  have lf: "length (filter (\<lambda>r. is_active r = 1 \<and> campaign r = [])
      (subscribers example_db)) = 1"
    using arg_cong [OF f, of length] by simp
  have "mset (export_subscribers example_db (Some [])) \<noteq>
       mset (filter (\<lambda>r. is_active r = 1 \<and> campaign r = []) (subscribers example_db))"
  proof
    assume "mset (export_subscribers example_db (Some [])) =
       mset (filter (\<lambda>r. is_active r = 1 \<and> campaign r = []) (subscribers example_db))"
    then have "length (export_subscribers example_db (Some [])) =
       length (filter (\<lambda>r. is_active r = 1 \<and> campaign r = []) (subscribers example_db))"
      by (rule mset_eq_length)
    with le lf show False by simp
  qed
  with e f show ?thesis by simp
qed

text \<open>
  Claim C9: \<^verbatim>\<open>export_subscribers\<close> treats an empty-string campaign argument as no
  filter: for \<^verbatim>\<open>campaign=""\<close> it returns what it returns for no argument, all the
  active subscribers, and not only those whose campaign column is the empty string.
\<close>

theorem C9_export_empty_campaign_is_no_filter:
  "export_subscribers st (Some []) = export_subscribers st None
   \<and> mset (export_subscribers st (Some [])) =
       mset (filter (\<lambda>r. is_active r = 1) (subscribers st))"
  by (simp add: export_subscribers_def mset_order_by_desc truthy_def Let_def)

lemma export_example_empty_campaign:
  "map campaign (export_subscribers example_db (Some [])) =
     [''early_access_2025'', ''beta'', []]"
  by (simp add: export_subscribers_def example_db_def example_rows_def mk_row_def truthy_def
      order_by_desc_def)

section \<open>The calendar: ordinals and dates\<close>

text \<open>
  \<^verbatim>\<open>_ord2ymd\<close> inverts \<^verbatim>\<open>_ymd2ord\<close>, and later ordinals have later dates.
\<close>

lemma days_before_year_Suc:
  assumes "1 \<le> y"
  shows "days_before_year (Suc y) = days_before_year y + (if is_leap y then 366 else 365)"
proof -
  obtain p where y: "y = Suc p"
    using assms by (cases y) auto
  define a b c where "a = p div 4" and "b = p div 100" and "c = p div 400"
  have le: "b \<le> p"
    unfolding b_def by (rule div_le_dividend)
  have d4: "Suc p div 4 = a + (if Suc p mod 4 = 0 then 1 else 0)"
    and d100: "Suc p div 100 = b + (if Suc p mod 100 = 0 then 1 else 0)"
    and d400: "Suc p div 400 = c + (if Suc p mod 400 = 0 then 1 else 0)"
    by (simp_all add: div_Suc a_def b_def c_def)
  have "(4::nat) dvd 100" "(100::nat) dvd 400"
    by simp_all
  then have m: "Suc p mod 100 = 0 \<longrightarrow> Suc p mod 4 = 0" "Suc p mod 400 = 0 \<longrightarrow> Suc p mod 100 = 0"
    by (auto simp only: mod_eq_0_iff_dvd dest: dvd_trans)
  have l: "days_before_year (Suc (Suc p)) = Suc p * 365 + Suc p div 4 - Suc p div 100 + Suc p div 400"
    and r: "days_before_year (Suc p) = p * 365 + a - b + c"
    by (simp_all add: days_before_year_def a_def b_def c_def)
  show ?thesis
  proof (cases "Suc p mod 4 = 0")
    case False
    with m have "Suc p mod 100 \<noteq> 0" "Suc p mod 400 \<noteq> 0" by auto
    with False le show ?thesis
      by (simp add: l r d4 d100 d400 is_leap_def y)
  next
    case True
    show ?thesis
    proof (cases "Suc p mod 100 = 0")
      case False
      with m have "Suc p mod 400 \<noteq> 0" by auto
      with True False le show ?thesis
        by (simp add: l r d4 d100 d400 is_leap_def y)
    next
      case h: True
      show ?thesis
      proof (cases "Suc p mod 400 = 0")
        case False
        with True h le show ?thesis
          by (simp add: l r d4 d100 d400 is_leap_def y)
      next
        case t: True
        with True h le show ?thesis
          by (simp add: l r d4 d100 d400 is_leap_def y)
      qed
    qed
  qed
qed

lemma days_before_year_mono:
  assumes "1 \<le> y" "y \<le> y'"
  shows "days_before_year y \<le> days_before_year y'"
  using assms(2,1)
proof (induction rule: dec_induct)
  case base
  then show ?case by simp
next
  case (step n)
  then show ?case by (simp add: days_before_year_Suc)
qed

lemma days_before_year_less:
  assumes "1 \<le> y" "y < y'"
  shows "days_before_year y + (if is_leap y then 366 else 365) \<le> days_before_year y'"
proof -
  have "days_before_year (Suc y) \<le> days_before_year y'"
    using assms by (intro days_before_year_mono) auto
  then show ?thesis
    using assms by (simp add: days_before_year_Suc)
qed

lemma month_cases:
  assumes "1 \<le> m" "m \<le> (12::nat)"
  obtains "m = 1" | "m = 2" | "m = 3" | "m = 4" | "m = 5" | "m = 6"
    | "m = 7" | "m = 8" | "m = 9" | "m = 10" | "m = 11" | "m = 12"
proof (cases "m \<le> 6")
  case True
  with assms(1) have "m = 1 \<or> m = 2 \<or> m = 3 \<or> m = 4 \<or> m = 5 \<or> m = 6"
    by linarith
  then show ?thesis using that by blast
next
  case False
  with assms(2) have "m = 7 \<or> m = 8 \<or> m = 9 \<or> m = 10 \<or> m = 11 \<or> m = 12"
    by linarith
  then show ?thesis using that by blast
qed

lemma days_before_month_Suc:
  assumes "1 \<le> m" "m \<le> 11"
  shows "days_before_month y (Suc m) = days_before_month y m + days_in_month y m"
proof -
  from assms have "1 \<le> m" "m \<le> 12" by auto
  then show ?thesis
    using assms(2)
    by (cases m rule: month_cases)
      (simp_all add: days_before_month_def days_in_month_def DAYS_BEFORE_MONTH_def DAYS_IN_MONTH_def)
qed

lemma days_before_month_less:
  assumes "1 \<le> m" "m < m'" "m' \<le> 12"
  shows "days_before_month y m + days_in_month y m \<le> days_before_month y m'"
proof -
  from assms(2) have "Suc m \<le> m'" by simp
  then show ?thesis
    using assms(1,3)
  proof (induction rule: dec_induct)
    case base
    then show ?case by (simp add: days_before_month_Suc)
  next
    case (step n)
    then show ?case by (simp add: days_before_month_Suc)
  qed
qed

lemma days_before_month_year_end:
  assumes "1 \<le> m" "m \<le> 12"
  shows "days_before_month y m + days_in_month y m \<le> (if is_leap y then 366 else 365)"
  using assms
  by (cases m rule: month_cases)
    (simp_all add: days_before_month_def days_in_month_def DAYS_BEFORE_MONTH_def DAYS_IN_MONTH_def)


lemma ymd2ord_less:
  assumes "1 \<le> y" "1 \<le> m" "m \<le> 12" "d \<le> days_in_month y m"
    and "1 \<le> m'" "m' \<le> 12" "1 \<le> d'"
    and "y < y' \<or> (y = y' \<and> (m < m' \<or> (m = m' \<and> d < d')))"
  shows "ymd2ord y m d < ymd2ord y' m' d'"
proof -
  consider "y < y'" | "y = y'" "m < m'" | "y = y'" "m = m'" "d < d'"
    using assms(8) by blast
  then show ?thesis
  proof cases
    case 1
    have "days_before_month y m + d \<le> (if is_leap y then 366 else 365)"
      using days_before_month_year_end [OF assms(2,3), of y] assms(4) by simp
    moreover have "days_before_year y + (if is_leap y then 366 else 365) \<le> days_before_year y'"
      using assms(1) 1 by (rule days_before_year_less)
    ultimately show ?thesis
      using assms(7) by (simp add: ymd2ord_def split: if_splits)
  next
    case 2
    have "days_before_month y m + days_in_month y m \<le> days_before_month y m'"
      using assms(2) 2(2) assms(6) by (rule days_before_month_less)
    then show ?thesis
      using assms(4,7) 2(1) by (simp add: ymd2ord_def)
  next
    case 3
    then show ?thesis by (simp add: ymd2ord_def)
  qed
qed

text \<open>
  The month of the \<open>n\<close>-th day of a year: the estimate \<open>(n + 50) div 32\<close> is the month or
  the month after it.
\<close>

lemma month_of_day_earlier:
  fixes n :: nat and leap :: bool
  assumes "n < 365"
    and M_def: "M = (n + 50) div 32"
    and P_def: "P = DAYS_BEFORE_MONTH ! M + (if 2 < M \<and> leap then 1 else 0)"
    and "n < P"
  shows "1 \<le> M - 1 \<and> M - 1 \<le> 12 \<and> 1 \<le> n - (P - (DAYS_IN_MONTH ! (M - 1) + (if M - 1 = 2 \<and> leap then 1 else 0))) + 1
     \<and> n - (P - (DAYS_IN_MONTH ! (M - 1) + (if M - 1 = 2 \<and> leap then 1 else 0))) + 1 \<le> (if M - 1 = 2 \<and> leap then 29 else DAYS_IN_MONTH ! (M - 1))
     \<and> DAYS_BEFORE_MONTH ! (M - 1) + (if 2 < M - 1 \<and> leap then 1 else 0) + (n - (P - (DAYS_IN_MONTH ! (M - 1) + (if M - 1 = 2 \<and> leap then 1 else 0))) + 1) = n + 1"
proof -
  define q where "q = (n + 50) mod 32"
  have dm: "n + 50 = 32 * M + q" "q < 32"
    by (simp_all add: M_def q_def)
  then have "1 \<le> M" "M \<le> 12"
    using assms(1) by linarith+
  then show ?thesis
  proof (cases M rule: month_cases)
    case 1
    have rng: "0 \<le> n" "n < 14"
      using 1 dm assms(1) by linarith+
    have Pv: "P = 0 + (if False then 1 else 0)"
      using 1 by (simp add: P_def DAYS_BEFORE_MONTH_def)
    show ?thesis
      using assms(4) rng unfolding Pv 1
      by (cases leap) (simp_all add: DAYS_BEFORE_MONTH_def DAYS_IN_MONTH_def)
  next
    case 2
    have rng: "14 \<le> n" "n < 46"
      using 2 dm assms(1) by linarith+
    have Pv: "P = 31 + (if False then 1 else 0)"
      using 2 by (simp add: P_def DAYS_BEFORE_MONTH_def)
    show ?thesis
      using assms(4) rng unfolding Pv 2
      by (cases leap) (simp_all add: DAYS_BEFORE_MONTH_def DAYS_IN_MONTH_def)
  next
    case 3
    have rng: "46 \<le> n" "n < 78"
      using 3 dm assms(1) by linarith+
    have Pv: "P = 59 + (if leap then 1 else 0)"
      using 3 by (simp add: P_def DAYS_BEFORE_MONTH_def)
    show ?thesis
      using assms(4) rng unfolding Pv 3
      by (cases leap) (simp_all add: DAYS_BEFORE_MONTH_def DAYS_IN_MONTH_def)
  next
    case 4
    have rng: "78 \<le> n" "n < 110"
      using 4 dm assms(1) by linarith+
    have Pv: "P = 90 + (if leap then 1 else 0)"
      using 4 by (simp add: P_def DAYS_BEFORE_MONTH_def)
    show ?thesis
      using assms(4) rng unfolding Pv 4
      by (cases leap) (simp_all add: DAYS_BEFORE_MONTH_def DAYS_IN_MONTH_def)
  next
    case 5
    have rng: "110 \<le> n" "n < 142"
      using 5 dm assms(1) by linarith+
    have Pv: "P = 120 + (if leap then 1 else 0)"
      using 5 by (simp add: P_def DAYS_BEFORE_MONTH_def)
    show ?thesis
      using assms(4) rng unfolding Pv 5
      by (cases leap) (simp_all add: DAYS_BEFORE_MONTH_def DAYS_IN_MONTH_def)
  next
    case 6
    have rng: "142 \<le> n" "n < 174"
      using 6 dm assms(1) by linarith+
    have Pv: "P = 151 + (if leap then 1 else 0)"
      using 6 by (simp add: P_def DAYS_BEFORE_MONTH_def)
    show ?thesis
      using assms(4) rng unfolding Pv 6
      by (cases leap) (simp_all add: DAYS_BEFORE_MONTH_def DAYS_IN_MONTH_def)
  next
    case 7
    have rng: "174 \<le> n" "n < 206"
      using 7 dm assms(1) by linarith+
    have Pv: "P = 181 + (if leap then 1 else 0)"
      using 7 by (simp add: P_def DAYS_BEFORE_MONTH_def)
    show ?thesis
      using assms(4) rng unfolding Pv 7
      by (cases leap) (simp_all add: DAYS_BEFORE_MONTH_def DAYS_IN_MONTH_def)
  next
    case 8
    have rng: "206 \<le> n" "n < 238"
      using 8 dm assms(1) by linarith+
    have Pv: "P = 212 + (if leap then 1 else 0)"
      using 8 by (simp add: P_def DAYS_BEFORE_MONTH_def)
    show ?thesis
      using assms(4) rng unfolding Pv 8
      by (cases leap) (simp_all add: DAYS_BEFORE_MONTH_def DAYS_IN_MONTH_def)
  next
    case 9
    have rng: "238 \<le> n" "n < 270"
      using 9 dm assms(1) by linarith+
    have Pv: "P = 243 + (if leap then 1 else 0)"
      using 9 by (simp add: P_def DAYS_BEFORE_MONTH_def)
    show ?thesis
      using assms(4) rng unfolding Pv 9
      by (cases leap) (simp_all add: DAYS_BEFORE_MONTH_def DAYS_IN_MONTH_def)
  next
    case 10
    have rng: "270 \<le> n" "n < 302"
      using 10 dm assms(1) by linarith+
    have Pv: "P = 273 + (if leap then 1 else 0)"
      using 10 by (simp add: P_def DAYS_BEFORE_MONTH_def)
    show ?thesis
      using assms(4) rng unfolding Pv 10
      by (cases leap) (simp_all add: DAYS_BEFORE_MONTH_def DAYS_IN_MONTH_def)
  next
    case 11
    have rng: "302 \<le> n" "n < 334"
      using 11 dm assms(1) by linarith+
    have Pv: "P = 304 + (if leap then 1 else 0)"
      using 11 by (simp add: P_def DAYS_BEFORE_MONTH_def)
    show ?thesis
      using assms(4) rng unfolding Pv 11
      by (cases leap) (simp_all add: DAYS_BEFORE_MONTH_def DAYS_IN_MONTH_def)
  next
    case 12
    have rng: "334 \<le> n" "n < 365"
      using 12 dm assms(1) by linarith+
    have Pv: "P = 334 + (if leap then 1 else 0)"
      using 12 by (simp add: P_def DAYS_BEFORE_MONTH_def)
    show ?thesis
      using assms(4) rng unfolding Pv 12
      by (cases leap) (simp_all add: DAYS_BEFORE_MONTH_def DAYS_IN_MONTH_def)
  qed
qed

lemma month_of_day_estimated:
  fixes n :: nat and leap :: bool
  assumes "n < 365"
    and M_def: "M = (n + 50) div 32"
    and P_def: "P = DAYS_BEFORE_MONTH ! M + (if 2 < M \<and> leap then 1 else 0)"
    and "\<not> n < P"
  shows "1 \<le> M \<and> M \<le> 12 \<and> 1 \<le> n - P + 1
     \<and> n - P + 1 \<le> (if M = 2 \<and> leap then 29 else DAYS_IN_MONTH ! (M))
     \<and> DAYS_BEFORE_MONTH ! (M) + (if 2 < M \<and> leap then 1 else 0) + (n - P + 1) = n + 1"
proof -
  define q where "q = (n + 50) mod 32"
  have dm: "n + 50 = 32 * M + q" "q < 32"
    by (simp_all add: M_def q_def)
  then have "1 \<le> M" "M \<le> 12"
    using assms(1) by linarith+
  then show ?thesis
  proof (cases M rule: month_cases)
    case 1
    have rng: "0 \<le> n" "n < 14"
      using 1 dm assms(1) by linarith+
    have Pv: "P = 0 + (if False then 1 else 0)"
      using 1 by (simp add: P_def DAYS_BEFORE_MONTH_def)
    show ?thesis
      using assms(4) rng unfolding Pv 1
      by (cases leap) (simp_all add: DAYS_BEFORE_MONTH_def DAYS_IN_MONTH_def)
  next
    case 2
    have rng: "14 \<le> n" "n < 46"
      using 2 dm assms(1) by linarith+
    have Pv: "P = 31 + (if False then 1 else 0)"
      using 2 by (simp add: P_def DAYS_BEFORE_MONTH_def)
    show ?thesis
      using assms(4) rng unfolding Pv 2
      by (cases leap) (simp_all add: DAYS_BEFORE_MONTH_def DAYS_IN_MONTH_def)
  next
    case 3
    have rng: "46 \<le> n" "n < 78"
      using 3 dm assms(1) by linarith+
    have Pv: "P = 59 + (if leap then 1 else 0)"
      using 3 by (simp add: P_def DAYS_BEFORE_MONTH_def)
    show ?thesis
      using assms(4) rng unfolding Pv 3
      by (cases leap) (simp_all add: DAYS_BEFORE_MONTH_def DAYS_IN_MONTH_def)
  next
    case 4
    have rng: "78 \<le> n" "n < 110"
      using 4 dm assms(1) by linarith+
    have Pv: "P = 90 + (if leap then 1 else 0)"
      using 4 by (simp add: P_def DAYS_BEFORE_MONTH_def)
    show ?thesis
      using assms(4) rng unfolding Pv 4
      by (cases leap) (simp_all add: DAYS_BEFORE_MONTH_def DAYS_IN_MONTH_def)
  next
    case 5
    have rng: "110 \<le> n" "n < 142"
      using 5 dm assms(1) by linarith+
    have Pv: "P = 120 + (if leap then 1 else 0)"
      using 5 by (simp add: P_def DAYS_BEFORE_MONTH_def)
    show ?thesis
      using assms(4) rng unfolding Pv 5
      by (cases leap) (simp_all add: DAYS_BEFORE_MONTH_def DAYS_IN_MONTH_def)
  next
    case 6
    have rng: "142 \<le> n" "n < 174"
      using 6 dm assms(1) by linarith+
    have Pv: "P = 151 + (if leap then 1 else 0)"
      using 6 by (simp add: P_def DAYS_BEFORE_MONTH_def)
    show ?thesis
      using assms(4) rng unfolding Pv 6
      by (cases leap) (simp_all add: DAYS_BEFORE_MONTH_def DAYS_IN_MONTH_def)
  next
    case 7
    have rng: "174 \<le> n" "n < 206"
      using 7 dm assms(1) by linarith+
    have Pv: "P = 181 + (if leap then 1 else 0)"
      using 7 by (simp add: P_def DAYS_BEFORE_MONTH_def)
    show ?thesis
      using assms(4) rng unfolding Pv 7
      by (cases leap) (simp_all add: DAYS_BEFORE_MONTH_def DAYS_IN_MONTH_def)
  next
    case 8
    have rng: "206 \<le> n" "n < 238"
      using 8 dm assms(1) by linarith+
    have Pv: "P = 212 + (if leap then 1 else 0)"
      using 8 by (simp add: P_def DAYS_BEFORE_MONTH_def)
    show ?thesis
      using assms(4) rng unfolding Pv 8
      by (cases leap) (simp_all add: DAYS_BEFORE_MONTH_def DAYS_IN_MONTH_def)
  next
    case 9
    have rng: "238 \<le> n" "n < 270"
      using 9 dm assms(1) by linarith+
    have Pv: "P = 243 + (if leap then 1 else 0)"
      using 9 by (simp add: P_def DAYS_BEFORE_MONTH_def)
    show ?thesis
      using assms(4) rng unfolding Pv 9
      by (cases leap) (simp_all add: DAYS_BEFORE_MONTH_def DAYS_IN_MONTH_def)
  next
    case 10
    have rng: "270 \<le> n" "n < 302"
      using 10 dm assms(1) by linarith+
    have Pv: "P = 273 + (if leap then 1 else 0)"
      using 10 by (simp add: P_def DAYS_BEFORE_MONTH_def)
    show ?thesis
      using assms(4) rng unfolding Pv 10
      by (cases leap) (simp_all add: DAYS_BEFORE_MONTH_def DAYS_IN_MONTH_def)
  next
    case 11
    have rng: "302 \<le> n" "n < 334"
      using 11 dm assms(1) by linarith+
    have Pv: "P = 304 + (if leap then 1 else 0)"
      using 11 by (simp add: P_def DAYS_BEFORE_MONTH_def)
    show ?thesis
      using assms(4) rng unfolding Pv 11
      by (cases leap) (simp_all add: DAYS_BEFORE_MONTH_def DAYS_IN_MONTH_def)
  next
    case 12
    have rng: "334 \<le> n" "n < 365"
      using 12 dm assms(1) by linarith+
    have Pv: "P = 334 + (if leap then 1 else 0)"
      using 12 by (simp add: P_def DAYS_BEFORE_MONTH_def)
    show ?thesis
      using assms(4) rng unfolding Pv 12
      by (cases leap) (simp_all add: DAYS_BEFORE_MONTH_def DAYS_IN_MONTH_def)
  qed
qed

lemma div_unique_nat: "a = b * q + r \<Longrightarrow> r < b \<Longrightarrow> a div b = (q::nat)"
  by simp

lemma mod_unique_nat: "a = b * q + r \<Longrightarrow> r < b \<Longrightarrow> a mod b = (r::nat)"
  by simp

text \<open>The year that follows \<open>400 a + 100 b + 4 c + e\<close> whole years.\<close>

lemma year_decomposition:
  fixes a b c e :: nat
  assumes "b \<le> 3" "c \<le> 24" "e \<le> 3"
  shows "days_before_year (Suc (a * 400 + b * 100 + c * 4 + e)) =
           146097 * a + 36524 * b + 1461 * c + 365 * e"
    and "is_leap (Suc (a * 400 + b * 100 + c * 4 + e)) \<longleftrightarrow> e = 3 \<and> (c \<noteq> 24 \<or> b = 3)"
proof -
  define Y where "Y = a * 400 + b * 100 + c * 4 + e"
  have d4: "Y div 4 = 100 * a + 25 * b + c"
    using assms by (intro div_unique_nat [where r = e]) (simp_all add: Y_def)
  have d100: "Y div 100 = 4 * a + b"
    using assms by (intro div_unique_nat [where r = "c * 4 + e"]) (simp_all add: Y_def)
  have d400: "Y div 400 = a"
    using assms by (intro div_unique_nat [where r = "b * 100 + c * 4 + e"]) (simp_all add: Y_def)
  show "days_before_year (Suc (a * 400 + b * 100 + c * 4 + e)) =
           146097 * a + 36524 * b + 1461 * c + 365 * e"
    by (simp add: days_before_year_def d4 d100 d400 Y_def [symmetric]) (simp add: Y_def)
  have m4: "Suc Y mod 4 = Suc e mod 4"
  proof -
    have "Suc Y = 4 * (100 * a + 25 * b + c) + Suc e" by (simp add: Y_def)
    then show ?thesis by (metis mod_mult_self4)
  qed
  have m100: "Suc Y mod 100 = Suc (c * 4 + e) mod 100"
  proof -
    have "Suc Y = 100 * (4 * a + b) + Suc (c * 4 + e)" by (simp add: Y_def)
    then show ?thesis by (metis mod_mult_self4)
  qed
  have m400: "Suc Y mod 400 = Suc (b * 100 + c * 4 + e) mod 400"
  proof -
    have "Suc Y = 400 * a + Suc (b * 100 + c * 4 + e)" by (simp add: Y_def)
    then show ?thesis by (metis mod_mult_self4)
  qed
  have e4: "Suc e mod 4 = 0 \<longleftrightarrow> e = 3"
    using assms(3) by (auto simp: mod_Suc le_Suc_eq numeral_3_eq_3)
  have e100: "Suc (c * 4 + e) mod 100 = 0 \<longleftrightarrow> c = 24 \<and> e = 3"
  proof -
    have "Suc (c * 4 + e) \<le> 100" using assms by simp
    then have "Suc (c * 4 + e) mod 100 = 0 \<longleftrightarrow> Suc (c * 4 + e) = 100"
      by (cases "Suc (c * 4 + e) = 100") simp_all
    also have "\<dots> \<longleftrightarrow> c = 24 \<and> e = 3" using assms by arith
    finally show ?thesis .
  qed
  have e400: "Suc (b * 100 + c * 4 + e) mod 400 = 0 \<longleftrightarrow> b = 3 \<and> c = 24 \<and> e = 3"
  proof -
    have "Suc (b * 100 + c * 4 + e) \<le> 400" using assms by simp
    then have "Suc (b * 100 + c * 4 + e) mod 400 = 0 \<longleftrightarrow> Suc (b * 100 + c * 4 + e) = 400"
      by (cases "Suc (b * 100 + c * 4 + e) = 400") simp_all
    also have "\<dots> \<longleftrightarrow> b = 3 \<and> c = 24 \<and> e = 3" using assms by arith
    finally show ?thesis .
  qed
  show "is_leap (Suc (a * 400 + b * 100 + c * 4 + e)) \<longleftrightarrow> e = 3 \<and> (c \<noteq> 24 \<or> b = 3)"
    unfolding is_leap_def Y_def [symmetric] m4 m100 m400 e4 e100 e400 by auto
qed


lemma ord2ymd_correct:
  assumes "1 \<le> k" and "ord2ymd k = (y, m, d)"
  shows "1 \<le> y \<and> 1 \<le> m \<and> m \<le> 12 \<and> 1 \<le> d \<and> d \<le> days_in_month y m
    \<and> ymd2ord y m d = k"
proof -
  define n0 where "n0 = k - 1"
  define n400 where "n400 = n0 div 146097"
  define r1 where "r1 = n0 mod 146097"
  define n100 where "n100 = r1 div 36524"
  define r2 where "r2 = r1 mod 36524"
  define n4 where "n4 = r2 div 1461"
  define r3 where "r3 = r2 mod 1461"
  define n1y where "n1y = r3 div 365"
  define n where "n = r3 mod 365"
  define Y where "Y = n400 * 400 + n100 * 100 + n4 * 4 + n1y"
  define leap where "leap \<longleftrightarrow> n1y = 3 \<and> (n4 \<noteq> 24 \<or> n100 = 3)"
  define M where "M = (n + 50) div 32"
  define P where "P = DAYS_BEFORE_MONTH ! M + (if 2 < M \<and> leap then 1 else 0)"
  have k: "k = Suc n0"
    using assms(1) by (simp add: n0_def)
  have e1: "n0 = 146097 * n400 + r1" "r1 < 146097"
    by (simp_all add: n400_def r1_def)
  have e2: "r1 = 36524 * n100 + r2" "r2 < 36524"
    by (simp_all add: n100_def r2_def)
  have e3: "r2 = 1461 * n4 + r3" "r3 < 1461"
    by (simp_all add: n4_def r3_def)
  have e4: "r3 = 365 * n1y + n" "n < 365"
    by (simp_all add: n1y_def n_def)
  have b: "n100 \<le> 4" "n4 \<le> 24" "n1y \<le> 4"
    using e1 e2 e3 e4 by linarith+
  have o: "ord2ymd k =
      (if n1y = 4 \<or> n100 = 4 then (Y, 12, 31)
       else if n < P
         then (Suc Y, M - 1,
               n - (P - (DAYS_IN_MONTH ! (M - 1) + (if M - 1 = 2 \<and> leap then 1 else 0))) + 1)
         else (Suc Y, M, n - P + 1))"
    unfolding ord2ymd_def Let_def
    unfolding n0_def [symmetric]
    unfolding n400_def [symmetric] r1_def [symmetric]
    unfolding n100_def [symmetric] r2_def [symmetric]
    unfolding n4_def [symmetric] r3_def [symmetric]
    unfolding n1y_def [symmetric] n_def [symmetric]
    unfolding leap_def [symmetric] M_def [symmetric]
    unfolding P_def [symmetric]
    by (simp add: Y_def)
  show ?thesis
  proof (cases "n100 = 4")
    case True
    with e1 e2 e3 e4 have z: "r2 = 0" "n4 = 0" "n1y = 0" "n = 0" "r1 = 146096"
      by linarith+
    have Yv: "Y = Suc (n400 * 400 + 3 * 100 + 24 * 4 + 3)"
      by (simp add: Y_def True z)
    have ymd: "y = Y" "m = 12" "d = 31"
      using assms(2) True by (simp_all add: o)
    have dby: "days_before_year Y = 146097 * n400 + 36524 * 3 + 1461 * 24 + 365 * 3"
      and lp: "is_leap Y"
      unfolding Yv by (simp_all only: year_decomposition) simp_all
    have kv: "k = 146097 * n400 + 146097"
      using k e1 z by simp
    show ?thesis
      unfolding ymd
      by (simp add: ymd2ord_def days_before_month_def days_in_month_def dby lp kv
          DAYS_BEFORE_MONTH_def DAYS_IN_MONTH_def) (simp add: Yv)
  next
    case n100: False
    with b have b100: "n100 \<le> 3" by simp
    show ?thesis
    proof (cases "n1y = 4")
      case True
      with e2 e3 e4 have z: "n = 0" "r3 = 1460" "n4 \<le> 23"
        by linarith+
      have Yv: "Y = Suc (n400 * 400 + n100 * 100 + n4 * 4 + 3)"
        by (simp add: Y_def True)
      have ymd: "y = Y" "m = 12" "d = 31"
        using assms(2) True by (simp_all add: o)
      have c24: "n4 \<le> 24" "n4 \<noteq> 24" "(3::nat) \<le> 3"
        using z by simp_all
      have dby: "days_before_year Y = 146097 * n400 + 36524 * n100 + 1461 * n4 + 365 * 3"
        unfolding Yv by (rule year_decomposition(1) [OF b100 c24(1) c24(3)])
      have lp: "is_leap Y"
        unfolding Yv using c24(2) year_decomposition(2) [OF b100 c24(1) c24(3), of n400]
        by blast
      have kv: "k = 146097 * n400 + 36524 * n100 + 1461 * n4 + 1461"
        using k e1 e2 e3 z by simp
      show ?thesis
        unfolding ymd
        by (simp add: ymd2ord_def days_before_month_def days_in_month_def dby lp kv
            DAYS_BEFORE_MONTH_def DAYS_IN_MONTH_def) (simp add: Yv)
    next
      case False
      with b have b1: "n1y \<le> 3" by simp
      have dby: "days_before_year (Suc Y) = 146097 * n400 + 36524 * n100 + 1461 * n4 + 365 * n1y"
        unfolding Y_def by (rule year_decomposition(1) [OF b100 b(2) b1])
      have lp: "is_leap (Suc Y) \<longleftrightarrow> leap"
        unfolding Y_def leap_def by (rule year_decomposition(2) [OF b100 b(2) b1])
      have kv: "k = days_before_year (Suc Y) + n + 1"
        using k e1 e2 e3 e4 by (simp add: dby)
      define mm dd where "mm = (if n < P then M - 1 else M)"
        and "dd = (if n < P
          then n - (P - (DAYS_IN_MONTH ! (M - 1) + (if M - 1 = 2 \<and> leap then 1 else 0))) + 1
          else n - P + 1)"
      have "(y, m, d) = (Suc Y, mm, dd)"
      proof (cases "n < P")
        case True
        then show ?thesis
          unfolding assms(2) [symmetric] o mm_def dd_def using False n100
          by (simp only: if_True if_False simp_thms)
      next
        case ge: False
        then show ?thesis
          unfolding assms(2) [symmetric] o mm_def dd_def using False n100
          by (simp only: if_True if_False simp_thms)
      qed
      then have ymd: "y = Suc Y" "m = mm" "d = dd"
        by simp_all
      have mo: "1 \<le> mm \<and> mm \<le> 12 \<and> 1 \<le> dd
          \<and> dd \<le> (if mm = 2 \<and> leap then 29 else DAYS_IN_MONTH ! mm)
          \<and> DAYS_BEFORE_MONTH ! mm + (if 2 < mm \<and> leap then 1 else 0) + dd = n + 1"
      proof (cases "n < P")
        case True
        from month_of_day_earlier [OF e4(2) M_def P_def True] show ?thesis
          unfolding mm_def dd_def using True by (simp only: if_True)
      next
        case ge: False
        from month_of_day_estimated [OF e4(2) M_def P_def ge] show ?thesis
          unfolding mm_def dd_def using ge by (simp only: if_False)
      qed
      show ?thesis
        unfolding ymd using mo
        by (simp add: ymd2ord_def days_before_month_def days_in_month_def lp kv)
    qed
  qed
qed

lemma ord2ymd_mono:
  assumes "1 \<le> k" "k < k'"
    and "ord2ymd k = (y, m, d)" and "ord2ymd k' = (y', m', d')"
  shows "y < y' \<or> (y = y' \<and> (m < m' \<or> (m = m' \<and> d < d')))"
proof (rule ccontr)
  assume neg: "\<not> ?thesis"
  note c = ord2ymd_correct [OF assms(1,3)]
  have "1 \<le> k'" using assms(1,2) by simp
  note c' = ord2ymd_correct [OF this assms(4)]
  show False
  proof (cases "y = y' \<and> m = m' \<and> d = d'")
    case True
    with c c' assms(2) show False by simp
  next
    case False
    with neg have "y' < y \<or> (y' = y \<and> (m' < m \<or> (m' = m \<and> d' < d)))"
      by (metis linorder_neqE_nat)
    with c c' have "ymd2ord y' m' d' < ymd2ord y m d"
      by (intro ymd2ord_less) simp_all
    with c c' assms(2) show False by simp
  qed
qed

lemma days_before_year_10000: "days_before_year 10000 = 3652059"
  by (simp add: days_before_year_def)

lemma ord2ymd_year_bound:
  assumes "1 \<le> k" "k \<le> 3652059" and "ord2ymd k = (y, m, d)"
  shows "y \<le> 9999"
proof (rule ccontr)
  assume "\<not> y \<le> 9999"
  then have "10000 \<le> y" by simp
  then have "days_before_year 10000 \<le> days_before_year y"
    by (intro days_before_year_mono) simp_all
  moreover note c = ord2ymd_correct [OF assms(1,3)]
  ultimately show False
    using assms(2) by (simp add: days_before_year_10000 ymd2ord_def)
qed

section \<open>The order of ISO timestamps\<close>

text \<open>
  \<^verbatim>\<open>created_at >= ?\<close> compares two texts. For the texts \<^verbatim>\<open>isoformat\<close> makes of
  UTC datetimes the comparison of the texts is the comparison of the instants: every field
  has a fixed width, the fields come from the year down to the second, and the offset
  \<^verbatim>\<open>+00:00\<close> that follows a whole second sorts before the \<^verbatim>\<open>.\<close> that starts a
  fraction.
\<close>

lemma less_append_same:
  fixes xs ys zs :: "'a::linorder list"
  shows "ys < zs \<Longrightarrow> xs @ ys < xs @ zs"
  by (induction xs) simp_all

lemma less_append_eqlen:
  fixes xs xs' ys zs :: "'a::linorder list"
  shows "length xs = length xs' \<Longrightarrow> xs < xs' \<Longrightarrow> xs @ ys < xs' @ zs"
  by (induction xs xs' rule: list_induct2) auto

lemma of_char_digit: "of_char (digit_char d) = 48 + d mod 10"
  by (simp add: digit_char_def)

lemma digit_char_less: "a < b \<Longrightarrow> b < 10 \<Longrightarrow> digit_char a < digit_char b"
  by (simp add: less_char_def of_char_digit)

lemma digit_char_0: "digit_char 0 = CHR ''0''"
  unfolding digit_char_def by code_simp

lemma replicate_snoc: "1 \<le> w \<Longrightarrow> replicate w c = replicate (w - 1) c @ [c]"
  by (cases w) (simp_all add: replicate_append_same)

lemma zpad_small: "n < 10 \<Longrightarrow> zpad w n = replicate (w - 1) (CHR ''0'') @ [digit_char n]"
  by (simp add: zpad_def dec.simps)

lemma length_dec_pos: "0 < length (dec n)"
  by (subst dec.simps) simp

lemma length_dec: "n < 10 ^ w \<Longrightarrow> 1 \<le> w \<Longrightarrow> length (dec n) \<le> w"
proof (induction w arbitrary: n)
  case 0
  then show ?case by simp
next
  case (Suc w)
  show ?case
  proof (cases "n < 10")
    case True
    then show ?thesis by (simp add: dec.simps)
  next
    case False
    then have "1 \<le> w" using Suc.prems by (cases w) auto
    moreover have "n div 10 < 10 ^ w" using Suc.prems by (simp add: less_mult_imp_div_less)
    ultimately have "length (dec (n div 10)) \<le> w" by (rule Suc.IH [rotated])
    with False show ?thesis by (subst dec.simps) simp
  qed
qed

lemma length_zpad: "n < 10 ^ w \<Longrightarrow> 1 \<le> w \<Longrightarrow> length (zpad w n) = w"
  using length_dec [of n w] by (simp add: zpad_def)

lemma zpad_Suc:
  assumes "n < 10 ^ Suc w" "1 \<le> w"
  shows "zpad (Suc w) n = zpad w (n div 10) @ [digit_char (n mod 10)]"
proof (cases "n < 10")
  case True
  then have "n div 10 = 0" "n mod 10 = n" by simp_all
  with True assms(2) show ?thesis
    using replicate_snoc [OF assms(2), of "CHR ''0''"]
    by (simp add: zpad_small digit_char_0)
next
  case False
  have "n div 10 < 10 ^ w" using assms(1) by (simp add: less_mult_imp_div_less)
  then have l: "length (dec (n div 10)) \<le> w" using assms(2) by (rule length_dec)
  have "dec n = dec (n div 10) @ [digit_char (n mod 10)]"
    using False by (subst dec.simps) simp
  with l show ?thesis
    by (simp add: zpad_def Suc_diff_le)
qed

lemma zpad_less:
  "n < m \<Longrightarrow> m < 10 ^ w \<Longrightarrow> 1 \<le> w \<Longrightarrow> zpad w n < zpad w m"
proof (induction w arbitrary: n m)
  case 0
  then show ?case by simp
next
  case (Suc w)
  show ?case
  proof (cases "w = 0")
    case True
    with Suc.prems show ?thesis
      by (simp add: zpad_small digit_char_less)
  next
    case False
    then have w: "1 \<le> w" by simp
    have n: "n < 10 ^ Suc w" using Suc.prems by simp
    have dm: "m div 10 < 10 ^ w" "n div 10 < 10 ^ w"
      using Suc.prems n by (simp_all add: less_mult_imp_div_less)
    have le: "n div 10 \<le> m div 10"
      using Suc.prems(1) by (simp add: div_le_mono)
    show ?thesis
    proof (cases "n div 10 < m div 10")
      case True
      then have "zpad w (n div 10) < zpad w (m div 10)"
        using dm(1) w by (rule Suc.IH)
      moreover have "length (zpad w (n div 10)) = length (zpad w (m div 10))"
        using dm w by (simp add: length_zpad)
      ultimately show ?thesis
        unfolding zpad_Suc [OF n w] zpad_Suc [OF Suc.prems(2) w]
        by (intro less_append_eqlen)
    next
      case eq: False
      with le have e: "n div 10 = m div 10" by simp
      have "n mod 10 < m mod 10"
        using Suc.prems(1) e by (metis add.commute add_less_cancel_right mult_div_mod_eq add_less_cancel_left)
      then have "digit_char (n mod 10) < digit_char (m mod 10)"
        by (rule digit_char_less) simp
      then show ?thesis
        unfolding zpad_Suc [OF n w] zpad_Suc [OF Suc.prems(2) w] e
        by (intro less_append_same) simp
    qed
  qed
qed


lemma field_less:
  assumes "a < 10 ^ w" "b < 10 ^ w" "1 \<le> w"
    and "a < b \<or> (a = b \<and> X < Y)"
  shows "zpad w a @ X < zpad w b @ Y"
proof (cases "a < b")
  case True
  then have "zpad w a < zpad w b"
    using assms(2,3) by (rule zpad_less)
  moreover have "length (zpad w a) = length (zpad w b)"
    using assms(1,2,3) by (simp add: length_zpad)
  ultimately show ?thesis
    by (intro less_append_eqlen)
next
  case False
  with assms(4) have "a = b" "X < Y" by auto
  then show ?thesis
    by (simp add: less_append_same)
qed

lemma length_format_date:
  "y < 10000 \<Longrightarrow> m < 100 \<Longrightarrow> d < 100 \<Longrightarrow> length (format_date y m d) = 10"
  by (simp add: format_date_def length_zpad)

lemma format_date_less:
  assumes "y' < 10000" "m < 100" "m' < 100" "d < 100" "d' < 100"
    and "y < y' \<or> (y = y' \<and> (m < m' \<or> (m = m' \<and> d < d')))"
  shows "format_date y m d < format_date y' m' d'"
proof -
  have y: "y < 10000" using assms(1,6) by auto
  have "zpad 2 d < zpad 2 d'" if "d < d'"
    using that assms(5) by (intro zpad_less) simp_all
  then have "m < m' \<or> (m = m' \<and> ''-'' @ zpad 2 d < ''-'' @ zpad 2 d')" if "y = y'"
    using that assms(6) by (auto simp: less_append_same)
  then have "zpad 2 m @ ''-'' @ zpad 2 d < zpad 2 m' @ ''-'' @ zpad 2 d'" if "y = y'"
    using that assms(2,3) by (intro field_less) simp_all
  then have "y < y' \<or> (y = y' \<and>
      ''-'' @ zpad 2 m @ ''-'' @ zpad 2 d < ''-'' @ zpad 2 m' @ ''-'' @ zpad 2 d')"
    using assms(6) by (auto simp: less_append_same)
  then show ?thesis
    unfolding format_date_def using y assms(1) by (intro field_less) simp_all
qed

text \<open>The fraction of the second and the offset: \<^verbatim>\<open>+\<close> sorts before \<^verbatim>\<open>.\<close>.\<close>

lemma fraction_less:
  assumes "us < us'" "us' < 1000000"
  shows "(if us \<noteq> 0 then ''.'' @ zpad 6 us else []) @ ''+00:00''
       < (if us' \<noteq> 0 then ''.'' @ zpad 6 us' else []) @ ''+00:00''"
proof (cases "us = 0")
  case True
  with assms(1) show ?thesis by simp
next
  case False
  have "zpad 6 us @ ''+00:00'' < zpad 6 us' @ ''+00:00''"
    using assms by (intro field_less) simp_all
  with False assms(1) show ?thesis by simp
qed

lemma format_time_less:
  assumes "s' < 86400" "us < 1000000" "us' < 1000000"
    and "s < s' \<or> (s = s' \<and> us < us')"
  shows "format_time (s div 3600) (s mod 3600 div 60) (s mod 60) us @ ''+00:00''
       < format_time (s' div 3600) (s' mod 3600 div 60) (s' mod 60) us' @ ''+00:00''"
proof -
  define h mi c where "h = s div 3600" and "mi = s mod 3600 div 60" and "c = s mod 60"
  define h' mi' c' where "h' = s' div 3600" and "mi' = s' mod 3600 div 60" and "c' = s' mod 60"
  define F where "F = (if us \<noteq> 0 then ''.'' @ zpad 6 us else []) @ ''+00:00''"
  define F' where "F' = (if us' \<noteq> 0 then ''.'' @ zpad 6 us' else []) @ ''+00:00''"
  have s: "s = 3600 * h + 60 * mi + c" "mi < 60" "c < 60"
  proof -
    have "s = 3600 * h + s mod 3600" by (simp add: h_def)
    moreover have "s mod 3600 = 60 * mi + s mod 3600 mod 60" by (simp add: mi_def)
    moreover have "s mod 3600 mod 60 = c"
      unfolding c_def by (simp add: mod_mod_cancel)
    moreover have "s mod 3600 < 3600" by simp
    ultimately show "s = 3600 * h + 60 * mi + c" "mi < 60" "c < 60"
      by (simp_all add: c_def mi_def less_mult_imp_div_less)
  qed
  have s': "s' = 3600 * h' + 60 * mi' + c'" "mi' < 60" "c' < 60"
  proof -
    have "s' = 3600 * h' + s' mod 3600" by (simp add: h'_def)
    moreover have "s' mod 3600 = 60 * mi' + s' mod 3600 mod 60" by (simp add: mi'_def)
    moreover have "s' mod 3600 mod 60 = c'"
      unfolding c'_def by (simp add: mod_mod_cancel)
    moreover have "s' mod 3600 < 3600" by simp
    ultimately show "s' = 3600 * h' + 60 * mi' + c'" "mi' < 60" "c' < 60"
      by (simp_all add: c'_def mi'_def less_mult_imp_div_less)
  qed
  have le: "s \<le> s'" using assms(4) by auto
  have hb: "h' < 24" "h \<le> h'"
    using s s' assms(1) le by linarith+
  have lex: "h < h' \<or> (h = h' \<and> (mi < mi' \<or> (mi = mi' \<and> (c < c' \<or> (c = c' \<and> us < us')))))"
    using s s' assms(4) by linarith
  have "F < F'" if "us < us'"
    unfolding F_def F'_def using that assms(3) by (rule fraction_less)
  then have "c < c' \<or> (c = c' \<and> F < F')" if "h = h'" "mi = mi'"
    using that lex by auto
  then have a: "zpad 2 c @ F < zpad 2 c' @ F'" if "h = h'" "mi = mi'"
    using that s(3) s'(3) by (intro field_less) simp_all
  have "mi < mi' \<or> (mi = mi' \<and> '':'' @ zpad 2 c @ F < '':'' @ zpad 2 c' @ F')" if "h = h'"
    using that lex a by (auto simp: less_append_same)
  then have b: "zpad 2 mi @ '':'' @ zpad 2 c @ F < zpad 2 mi' @ '':'' @ zpad 2 c' @ F'" if "h = h'"
    using that s(2) s'(2) by (intro field_less) simp_all
  have "h < h' \<or> (h = h' \<and>
      '':'' @ zpad 2 mi @ '':'' @ zpad 2 c @ F < '':'' @ zpad 2 mi' @ '':'' @ zpad 2 c' @ F')"
    using lex b by (auto simp: less_append_same)
  then have "zpad 2 h @ '':'' @ zpad 2 mi @ '':'' @ zpad 2 c @ F
           < zpad 2 h' @ '':'' @ zpad 2 mi' @ '':'' @ zpad 2 c' @ F'"
    using hb by (intro field_less) simp_all
  then show ?thesis
    by (simp add: format_time_def h_def mi_def c_def h'_def mi'_def c'_def F_def F'_def)
qed


lemma days_in_month_le:
  assumes "1 \<le> m" "m \<le> 12"
  shows "days_in_month y m \<le> 31"
  using assms
  by (cases m rule: month_cases) (simp_all add: days_in_month_def DAYS_IN_MONTH_def)

text \<open>
  The day number, the second of the day and the microsecond of a datetime, as
  \<^verbatim>\<open>isoformat\<close> takes them.
\<close>

lemma datetime_split:
  assumes "datetime_valid t"
  obtains day s us where
    "t = int day * 86400000000 + int s * 1000000 + int us"
    "day < 3652059" "s < 86400" "us < 1000000"
    "nat (t div us_per_day) = day"
    "nat (t mod us_per_day) div 1000000 = s"
    "nat (t mod us_per_day) mod 1000000 = us"
proof -
  define day where "day = nat (t div us_per_day)"
  define r where "r = nat (t mod us_per_day)"
  define s where "s = r div 1000000"
  define us where "us = r mod 1000000"
  have t0: "0 \<le> t" "t < 3652059 * 86400000000"
    using assms by (simp_all add: datetime_valid_def us_per_day_def)
  have q: "0 \<le> t div 86400000000" "0 \<le> t mod 86400000000" "t mod 86400000000 < 86400000000"
    using t0 by (simp_all add: pos_imp_zdiv_nonneg_iff)
  have d: "int day = t div 86400000000" and r: "int r = t mod 86400000000"
    using q by (simp_all add: day_def r_def us_per_day_def)
  have t: "t = int day * 86400000000 + int r"
    unfolding d r by simp
  have rs: "r = s * 1000000 + us" "us < 1000000"
    by (simp_all add: s_def us_def)
  have rb: "r < 86400000000"
    using q(3) r by linarith
  have f1: "t = int day * 86400000000 + int s * 1000000 + int us"
    using t rs(1) by simp
  have f2: "day < 3652059"
    using t t0 by linarith
  have f3: "s < 86400"
    using rs rb by linarith
  have f5: "nat (t div us_per_day) = day"
    by (simp add: day_def)
  have f6: "nat (t mod us_per_day) div 1000000 = s"
    by (simp add: s_def r_def)
  have f7: "nat (t mod us_per_day) mod 1000000 = us"
    by (simp add: us_def r_def)
  from f1 f2 f3 rs(2) f5 f6 f7 show ?thesis
    by (rule that)
qed

lemma isoformat_split:
  assumes "nat (t div us_per_day) = day"
    and "nat (t mod us_per_day) div 1000000 = s"
    and "nat (t mod us_per_day) mod 1000000 = us"
    and "ord2ymd (day + 1) = (y, m, d)"
  shows "isoformat t = format_date y m d @ ''T''
         @ format_time (s div 3600) (s mod 3600 div 60) (s mod 60) us @ ''+00:00''"
  using assms by (simp add: isoformat_def Let_def)

lemma isoformat_less:
  assumes "datetime_valid a" "datetime_valid b" "a < b"
  shows "isoformat a < isoformat b"
proof -
  from assms(1) obtain da sa ua where a:
    "a = int da * 86400000000 + int sa * 1000000 + int ua"
    "da < 3652059" "sa < 86400" "ua < 1000000"
    "nat (a div us_per_day) = da"
    "nat (a mod us_per_day) div 1000000 = sa"
    "nat (a mod us_per_day) mod 1000000 = ua"
    by (rule datetime_split)
  from assms(2) obtain db sb ub where b:
    "b = int db * 86400000000 + int sb * 1000000 + int ub"
    "db < 3652059" "sb < 86400" "ub < 1000000"
    "nat (b div us_per_day) = db"
    "nat (b mod us_per_day) div 1000000 = sb"
    "nat (b mod us_per_day) mod 1000000 = ub"
    by (rule datetime_split)
  obtain y m d where ya: "ord2ymd (da + 1) = (y, m, d)"
    by (cases "ord2ymd (da + 1)") auto
  obtain y' m' d' where yb: "ord2ymd (db + 1) = (y', m', d')"
    by (cases "ord2ymd (db + 1)") auto
  have ca: "1 \<le> m" "m \<le> 12" "d \<le> days_in_month y m"
    using ord2ymd_correct [OF _ ya] by simp_all
  have cb: "1 \<le> m'" "m' \<le> 12" "d' \<le> days_in_month y' m'"
    using ord2ymd_correct [OF _ yb] by simp_all
  have da31: "d \<le> 31" using days_in_month_le [OF ca(1,2), of y] ca(3) by simp
  have db31: "d' \<le> 31" using days_in_month_le [OF cb(1,2), of y'] cb(3) by simp
  have yb9: "y' \<le> 9999"
    using b(2) by (intro ord2ymd_year_bound [OF _ _ yb]) simp_all
  have ya9: "y \<le> 9999"
    using a(2) by (intro ord2ymd_year_bound [OF _ _ ya]) simp_all
  have lex: "da < db \<or> (da = db \<and> (sa < sb \<or> (sa = sb \<and> ua < ub)))"
  proof -
    have 1: "da \<le> db"
    proof (rule ccontr)
      assume "\<not> da \<le> db"
      then have "int db + 1 \<le> int da" by simp
      with assms(3) a(1,3,4) b(1,3,4) show False by linarith
    qed
    have 2: "sa \<le> sb" if "da = db"
    proof (rule ccontr)
      assume "\<not> sa \<le> sb"
      then have "int sb + 1 \<le> int sa" by simp
      with that assms(3) a(1,3,4) b(1,3,4) show False by linarith
    qed
    have 3: "ua < ub" if "da = db" "sa = sb"
      using that assms(3) a(1) b(1) by simp
    from 1 2 3 show ?thesis
      by (metis le_neq_implies_less)
  qed
  note ia = isoformat_split [OF a(5,6,7) ya]
  note ib = isoformat_split [OF b(5,6,7) yb]
  show ?thesis
  proof (cases "da < db")
    case True
    then have "y < y' \<or> (y = y' \<and> (m < m' \<or> (m = m' \<and> d < d')))"
      using ya yb by (intro ord2ymd_mono [of "da + 1" "db + 1"]) simp_all
    then have "format_date y m d < format_date y' m' d'"
      using yb9 ca(2) cb(2) da31 db31 by (intro format_date_less) simp_all
    moreover have "length (format_date y m d) = length (format_date y' m' d')"
      using ya9 yb9 ca(2) cb(2) da31 db31 by (simp add: length_format_date)
    ultimately show ?thesis
      unfolding ia ib by (intro less_append_eqlen)
  next
    case False
    with lex have e: "da = db" and l: "sa < sb \<or> (sa = sb \<and> ua < ub)"
      by auto
    from e ya yb have ymd: "y' = y" "m' = m" "d' = d" by simp_all
    have "format_time (sa div 3600) (sa mod 3600 div 60) (sa mod 60) ua @ ''+00:00''
        < format_time (sb div 3600) (sb mod 3600 div 60) (sb mod 60) ub @ ''+00:00''"
      using b(3) a(4) b(4) l by (rule format_time_less)
    then show ?thesis
      unfolding ia ib ymd by (intro less_append_same)
  qed
qed

lemma isoformat_le_iff:
  assumes "datetime_valid a" "datetime_valid b"
  shows "isoformat a \<le> isoformat b \<longleftrightarrow> a \<le> b"
proof
  assume "isoformat a \<le> isoformat b"
  show "a \<le> b"
  proof (rule ccontr)
    assume "\<not> a \<le> b"
    then have "b < a" by simp
    with assms have "isoformat b < isoformat a" by (intro isoformat_less)
    with \<open>isoformat a \<le> isoformat b\<close> show False by simp
  qed
next
  assume "a \<le> b"
  then consider "a = b" | "a < b" by linarith
  then show "isoformat a \<le> isoformat b"
  proof cases
    case 1
    then show ?thesis by simp
  next
    case 2
    with assms have "isoformat a < isoformat b" by (intro isoformat_less)
    then show ?thesis by simp
  qed
qed

section \<open>The analytics window\<close>

lemma group_count_iff:
  "(k, c) \<in> set (group_count key rows) \<longleftrightarrow>
     0 < c \<and> c = length (filter (\<lambda>r. key r = k) rows)"
proof -
  have "0 < length (filter (\<lambda>r. key r = k) rows) \<longleftrightarrow> k \<in> key ` set rows"
    by (auto simp: filter_empty_conv)
  then show ?thesis
    by (auto simp: group_count_def)
qed

lemma distinct_group_count: "distinct (map fst (group_count key rows))"
  by (simp add: group_count_def comp_def)

lemma count_key:
  "count (image_mset key (mset rows)) k = length (filter (\<lambda>r. key r = k) rows)"
  by (induction rows) auto

lemma total_group_count: "total_count (group_count key rows) = length rows"
proof -
  define M where "M = image_mset key (mset rows)"
  have "total_count (group_count key rows) = (\<Sum>k\<leftarrow>remdups (map key rows). count M k)"
    by (simp add: total_count_def group_count_def comp_def count_key M_def)
  also have "\<dots> = (\<Sum>k\<in>set (map key rows). count M k)"
    by (simp add: sum_list_distinct_conv_sum_set)
  also have "set (map key rows) = set_mset M"
    by (simp add: M_def)
  also have "(\<Sum>k\<in>set_mset M. count M k) = size M"
    by (simp add: size_multiset_overloaded_eq)
  finally show ?thesis by (simp add: M_def)
qed

lemma total_order_by_desc: "total_count (order_by_desc f groups) = total_count groups"
proof -
  have "mset (map snd (order_by_desc f groups)) = mset (map snd groups)"
    by (simp add: order_by_desc_def)
  then have "sum_mset (mset (map snd (order_by_desc f groups))) = sum_mset (mset (map snd groups))"
    by simp
  then show ?thesis
    by (simp only: total_count_def sum_mset_sum_list)
qed

lemma filter_created_since:
  "filter (\<lambda>r. key r = k) (created_since cutoff rows) =
     filter (\<lambda>r. key r = k \<and> cutoff \<le> created_at r) rows"
  by (simp add: created_since_def conj_commute)

lemma length_filter_mono:
  "(\<And>x. P x \<Longrightarrow> Q x) \<Longrightarrow> length (filter P xs) \<le> length (filter Q xs)"
  by (induction xs) auto

lemma created_since_mono:
  "c' \<le> c \<Longrightarrow> length (created_since c rows) \<le> length (created_since c' rows)"
  unfolding created_since_def by (rule length_filter_mono) simp


lemma digit_char_values:
  "digit_char 0 = CHR ''0''" "digit_char 1 = CHR ''1''" "digit_char 2 = CHR ''2''"
  "digit_char 3 = CHR ''3''" "digit_char 4 = CHR ''4''" "digit_char 5 = CHR ''5''"
  "digit_char 6 = CHR ''6''" "digit_char 7 = CHR ''7''" "digit_char 8 = CHR ''8''"
  "digit_char 9 = CHR ''9''"
  unfolding digit_char_def by code_simp+

lemma zpad_values:
  "zpad 4 2025 = ''2025''" "zpad 2 7 = ''07''" "zpad 2 8 = ''08''" "zpad 2 20 = ''20''"
  "zpad 2 28 = ''28''" "zpad 2 0 = ''00''"
  by (simp_all add: zpad_def dec.simps digit_char_values)

lemma ord2ymd_values: "ord2ymd 739483 = (2025, 8, 20)" "ord2ymd 739460 = (2025, 7, 28)"
  by (simp_all add: ord2ymd_def Let_def DAYS_BEFORE_MONTH_def DAYS_IN_MONTH_def)

lemma example_cutoffs:
  "isoformat (launch_date - timedelta_days 5 - timedelta_days 7) = ''2025-08-20T00:00:00+00:00''"
  "isoformat (launch_date - timedelta_days 5 - timedelta_days 30) = ''2025-07-28T00:00:00+00:00''"
  by (simp_all add: isoformat_def launch_date_value timedelta_days_def us_per_day_def Let_def
      ord2ymd_values zpad_values format_date_def format_time_def)

lemma aggregate_iff:
  "(k, c) \<in> set (order_by_desc f (group_count key (created_since cutoff rows))) \<longleftrightarrow>
     0 < c \<and> c = length (filter (\<lambda>r. key r = k \<and> cutoff \<le> created_at r) rows)"
  by (simp add: set_order_by_desc group_count_iff filter_created_since)

lemma aggregate_total:
  "total_count (order_by_desc f (group_count key (created_since cutoff rows))) =
     length (created_since cutoff rows)"
  by (simp add: total_order_by_desc total_group_count)

lemma aggregate_mono:
  assumes "cutoff' \<le> cutoff"
    and "(k, c) \<in> set (order_by_desc f (group_count key (created_since cutoff rows)))"
  shows "\<exists>c'. c \<le> c' \<and>
    (k, c') \<in> set (order_by_desc f' (group_count key (created_since cutoff' rows)))"
proof -
  let ?c' = "length (filter (\<lambda>r. key r = k \<and> cutoff' \<le> created_at r) rows)"
  have c: "0 < c" "c = length (filter (\<lambda>r. key r = k \<and> cutoff \<le> created_at r) rows)"
    using assms(2) unfolding aggregate_iff by blast+
  have le: "c \<le> ?c'"
    unfolding c(2) using assms(1) by (intro length_filter_mono) auto
  with c(1) have "0 < ?c'" by linarith
  then have "(k, ?c') \<in> set (order_by_desc f' (group_count key (created_since cutoff' rows)))"
    unfolding aggregate_iff by blast
  with le show ?thesis by blast
qed

lemma cutoff_order:
  assumes "datetime_valid (now1 - timedelta_days 30)" and "datetime_valid (now1 - timedelta_days 7)"
  shows "isoformat (now1 - timedelta_days 30) \<le> isoformat (now1 - timedelta_days 7)"
  using assms by (simp add: isoformat_le_iff timedelta_days_def us_per_day_def)

text \<open>
  Claim C5: for every store state and window, the \<^verbatim>\<open>daily_signups\<close>, \<^verbatim>\<open>sources\<close> and
  \<^verbatim>\<open>campaigns\<close> aggregates of \<^verbatim>\<open>get_analytics\<close> include only subscriber rows with
  \<^verbatim>\<open>created_at >= now - windowDays\<close> and exclude all older rows; and enlarging the
  window from 7 to 30 days never decreases any total count.

  For every window \<open>n\<close>, a group is in an aggregate exactly when some row of the table has
  its key and a \<^verbatim>\<open>created_at\<close> text not before the text of the cutoff, and its count is
  the number of those rows. Between texts that \<^verbatim>\<open>isoformat\<close> made of datetimes, the order
  of the texts is the order of the instants. With \<open>now - 30 days\<close> and \<open>now - 7 days\<close>
  datetimes Python represents, the total of each aggregate for 7 days is at most its total
  for 30 days, and each group of the 7-day aggregate is in the 30-day aggregate with a count
  that is no smaller.
\<close>

theorem C5_analytics_window:
  assumes "datetime_valid (now1 - timedelta_days 30)" and "datetime_valid (now1 - timedelta_days 7)"
  shows
   "((dt, c) \<in> set (daily_signups (get_analytics st DATE n now1 now2)) \<longleftrightarrow>
        0 < c \<and> c = length (filter (\<lambda>r. DATE (created_at r) = dt
              \<and> isoformat (now1 - timedelta_days n) \<le> created_at r) (subscribers st)))
    \<and> ((s, c) \<in> set (sources (get_analytics st DATE n now1 now2)) \<longleftrightarrow>
        0 < c \<and> c = length (filter (\<lambda>r. source r = s
              \<and> isoformat (now1 - timedelta_days n) \<le> created_at r) (subscribers st)))
    \<and> ((g, c) \<in> set (campaigns (get_analytics st DATE n now1 now2)) \<longleftrightarrow>
        0 < c \<and> c = length (filter (\<lambda>r. campaign r = g
              \<and> isoformat (now1 - timedelta_days n) \<le> created_at r) (subscribers st)))
    \<and> (datetime_valid (now1 - timedelta_days n) \<and> datetime_valid t \<longrightarrow>
        (isoformat (now1 - timedelta_days n) \<le> isoformat t \<longleftrightarrow> now1 - timedelta_days n \<le> t))
    \<and> total_count (daily_signups (get_analytics st DATE 7 now1 now2))
        \<le> total_count (daily_signups (get_analytics st DATE 30 now1 now2))
    \<and> total_count (sources (get_analytics st DATE 7 now1 now2))
        \<le> total_count (sources (get_analytics st DATE 30 now1 now2))
    \<and> total_count (campaigns (get_analytics st DATE 7 now1 now2))
        \<le> total_count (campaigns (get_analytics st DATE 30 now1 now2))
    \<and> ((dt, c) \<in> set (daily_signups (get_analytics st DATE 7 now1 now2)) \<longrightarrow>
        (\<exists>c'. c \<le> c' \<and> (dt, c') \<in> set (daily_signups (get_analytics st DATE 30 now1 now2))))
    \<and> ((s, c) \<in> set (sources (get_analytics st DATE 7 now1 now2)) \<longrightarrow>
        (\<exists>c'. c \<le> c' \<and> (s, c') \<in> set (sources (get_analytics st DATE 30 now1 now2))))
    \<and> ((g, c) \<in> set (campaigns (get_analytics st DATE 7 now1 now2)) \<longrightarrow>
        (\<exists>c'. c \<le> c' \<and> (g, c') \<in> set (campaigns (get_analytics st DATE 30 now1 now2))))"
proof -
  note co = cutoff_order [OF assms]
  have len: "length (created_since (isoformat (now1 - timedelta_days 7)) (subscribers st))
      \<le> length (created_since (isoformat (now1 - timedelta_days 30)) (subscribers st))"
    using co by (rule created_since_mono)
  have 1: "(dt, c) \<in> set (daily_signups (get_analytics st DATE n now1 now2)) \<longleftrightarrow>
        0 < c \<and> c = length (filter (\<lambda>r. DATE (created_at r) = dt
              \<and> isoformat (now1 - timedelta_days n) \<le> created_at r) (subscribers st))"
    by (simp only: get_analytics_def Let_def analytics.select_convs aggregate_iff)
  have 2: "(s, c) \<in> set (sources (get_analytics st DATE n now1 now2)) \<longleftrightarrow>
        0 < c \<and> c = length (filter (\<lambda>r. source r = s
              \<and> isoformat (now1 - timedelta_days n) \<le> created_at r) (subscribers st))"
    by (simp only: get_analytics_def Let_def analytics.select_convs aggregate_iff)
  have 3: "(g, c) \<in> set (campaigns (get_analytics st DATE n now1 now2)) \<longleftrightarrow>
        0 < c \<and> c = length (filter (\<lambda>r. campaign r = g
              \<and> isoformat (now1 - timedelta_days n) \<le> created_at r) (subscribers st))"
    by (simp only: get_analytics_def Let_def analytics.select_convs aggregate_iff)
  have 4: "datetime_valid (now1 - timedelta_days n) \<and> datetime_valid t \<longrightarrow>
        (isoformat (now1 - timedelta_days n) \<le> isoformat t \<longleftrightarrow> now1 - timedelta_days n \<le> t)"
    by (simp add: isoformat_le_iff)
  have 5: "total_count (daily_signups (get_analytics st DATE 7 now1 now2))
        \<le> total_count (daily_signups (get_analytics st DATE 30 now1 now2))"
    using len by (simp only: get_analytics_def Let_def analytics.select_convs aggregate_total)
  have 6: "total_count (sources (get_analytics st DATE 7 now1 now2))
        \<le> total_count (sources (get_analytics st DATE 30 now1 now2))"
    using len by (simp only: get_analytics_def Let_def analytics.select_convs aggregate_total)
  have 7: "total_count (campaigns (get_analytics st DATE 7 now1 now2))
        \<le> total_count (campaigns (get_analytics st DATE 30 now1 now2))"
    using len by (simp only: get_analytics_def Let_def analytics.select_convs aggregate_total)
  have 8: "(dt, c) \<in> set (daily_signups (get_analytics st DATE 7 now1 now2)) \<longrightarrow>
        (\<exists>c'. c \<le> c' \<and> (dt, c') \<in> set (daily_signups (get_analytics st DATE 30 now1 now2)))"
    unfolding get_analytics_def Let_def analytics.select_convs
    by (rule impI) (rule aggregate_mono [OF co])
  have 9: "(s, c) \<in> set (sources (get_analytics st DATE 7 now1 now2)) \<longrightarrow>
        (\<exists>c'. c \<le> c' \<and> (s, c') \<in> set (sources (get_analytics st DATE 30 now1 now2)))"
    unfolding get_analytics_def Let_def analytics.select_convs
    by (rule impI) (rule aggregate_mono [OF co])
  have 10: "(g, c) \<in> set (campaigns (get_analytics st DATE 7 now1 now2)) \<longrightarrow>
        (\<exists>c'. c \<le> c' \<and> (g, c') \<in> set (campaigns (get_analytics st DATE 30 now1 now2)))"
    unfolding get_analytics_def Let_def analytics.select_convs
    by (rule impI) (rule aggregate_mono [OF co])
  show ?thesis
    by (intro conjI) (rule 1, rule 2, rule 3, rule 4, rule 5, rule 6, rule 7, rule 8, rule 9, rule 10)
qed


theorem C5_analytics_window_witness:
  "(''landing_page'', 2) \<in> set (sources (get_analytics example_db (\<lambda>s. Some (take 10 s)) 7
        (launch_date - timedelta_days 5) launch_date))
   \<and> total_count (sources (get_analytics example_db (\<lambda>s. Some (take 10 s)) 7
        (launch_date - timedelta_days 5) launch_date))
     \<le> total_count (sources (get_analytics example_db (\<lambda>s. Some (take 10 s)) 30
        (launch_date - timedelta_days 5) launch_date))
   \<and> (isoformat (launch_date - timedelta_days 5 - timedelta_days 7) \<le> isoformat launch_date
        \<longleftrightarrow> launch_date - timedelta_days 5 - timedelta_days 7 \<le> launch_date)"
proof -
  have v30: "datetime_valid (launch_date - timedelta_days 5 - timedelta_days 30)"
    and v7: "datetime_valid (launch_date - timedelta_days 5 - timedelta_days 7)"
    and vt: "datetime_valid launch_date"
    by (simp_all add: datetime_valid_def launch_date_value timedelta_days_def us_per_day_def)
  have cnt: "length (filter (\<lambda>r. source r = ''landing_page''
      \<and> isoformat (launch_date - timedelta_days 5 - timedelta_days 7) \<le> created_at r)
      (subscribers example_db)) = 2"
    by (simp add: example_cutoffs example_db_def example_rows_def mk_row_def)
  note w = C5_analytics_window [OF v30 v7, where st = example_db and DATE = "\<lambda>s. Some (take 10 s)"
      and n = 7 and s = "''landing_page''" and c = 2 and ?t = launch_date
      and ?now2.0 = launch_date]
  from w cnt v7 vt show ?thesis
    by simp
qed

lemma analytics_example:
  "sources (get_analytics example_db DATE 30 (launch_date - timedelta_days 5) now2) =
     [(''landing_page'', 2), (''twitter'', 1)]"
  by (simp add: get_analytics_def Let_def example_cutoffs example_db_def example_rows_def
      mk_row_def created_since_def group_count_def order_by_desc_def)

end
